theory Spec2Isabelle
  imports Complex_Main "HOL-Library.Word"
begin

unbundle bit_operations_syntax

section \<open>Data model\<close>

text \<open>
  The converter reads an ESRI Shapefile (a geometry stream and a dBASE attribute stream) and
  produces GeoJSON features. Coordinates are JavaScript numbers; they are modelled as exact
  rationals, so every statement about signed areas below is a statement of exact arithmetic.
  A coordinate pair \<open>[x, y]\<close> is a pair, a bounding box \<open>[w, s, e, n]\<close> a 4-tuple, a byte an
  8-bit word.
\<close>

type_synonym byte = "8 word"
type_synonym point = "rat \<times> rat"
type_synonym bbox = "rat \<times> rat \<times> rat \<times> rat"

text \<open>
  Everything the functions of \<open>common.js\<close> throw, one constructor for each \<open>throw\<close>
  statement, and two for errors raised by the JavaScript runtime itself: \<open>RangeError\<close> (a
  \<open>DataView\<close> access outside the buffer, an invalid array length) and \<open>NullReference\<close> (a
  property read on \<open>null\<close>).
\<close>

datatype error =
    RingTooShort
  | RingAreaIs0
  | RingNotClosed
  | RingAreaIsZero
  | NoOuterRings
  | RecordTypeNotImplemented int
  | NotShapefile
  | DBFFormatNotImplemented int
  | EncryptedDBF
  | DBFFieldTypeNotImplemented int
  | RangeError
  | NullReference

datatype geometry =
    Point point
  | LineString "point list"
  | MultiLineString "point list list"
  | Polygon "point list list"
  | MultiPolygon "point list list list"
  | MultiPoint "point list"

section \<open>Rings (\<open>common.js\<close>)\<close>

text \<open>\<open>ringClosed\<close>: throws on a ring of three points or fewer, before it compares anything.\<close>

definition ringClosed :: "point list \<Rightarrow> error + bool" where
  "ringClosed ring =
     (let l = int (length ring) - 1
      in if l \<le> 2 then Inl RingTooShort
         else Inr (fst (ring ! 0) = fst (ring ! nat l) \<and> snd (ring ! 0) = snd (ring ! nat l)))"

text \<open>
  \<open>ringArea\<close>: the Shoelace sum over all indices, with the neighbours taken cyclically, and
  the throw when the sum is zero. \<open>ring_sum\<close> is the value of the local variable \<open>sum\<close> after
  the loop.
\<close>

definition ring_sum :: "point list \<Rightarrow> rat" where
  "ring_sum ring =
     (let l = length ring
      in (\<Sum>i\<leftarrow>[0..<l]. snd (ring ! i) *
            (fst (ring ! (if i > 0 then i - 1 else l - 1))
             - fst (ring ! (if i < l - 1 then i + 1 else 0)))))"

definition ringArea :: "point list \<Rightarrow> error + rat" where
  "ringArea ring =
     (let sum = ring_sum ring
      in if sum = 0 then Inl RingAreaIs0 else Inr ((1 / 2) * sum))"

text \<open>\<open>insideRing\<close>: the crossing number of the ray from \<open>p\<close> to the right.\<close>

definition crossing :: "point \<Rightarrow> point list \<Rightarrow> nat \<Rightarrow> bool" where
  "crossing p ring i =
     (let n = (i + 1) mod length ring; ri = ring ! i; rn = ring ! n
      in ((snd ri \<le> snd p \<and> snd rn > snd p) \<or> (snd ri > snd p \<and> snd rn \<le> snd p))
         \<and> (let vt = (snd p - snd ri) / (snd rn - snd ri)
            in fst p < fst ri + vt * (fst rn - fst ri)))"

definition insideRing :: "point \<Rightarrow> point list \<Rightarrow> nat" where
  "insideRing p ring = length (filter (crossing p ring) [0..<length ring])"

text \<open>Bounding boxes: \<open>bbox_intersection\<close>, \<open>bbox_of\<close>, \<open>bbox_contains\<close>.\<close>

definition bbox_intersection :: "bbox \<Rightarrow> bbox \<Rightarrow> bbox option" where
  "bbox_intersection b1 b2 =
     (case b1 of (w1, s1, e1, n1) \<Rightarrow> case b2 of (w2, s2, e2, n2) \<Rightarrow>
        if e1 < w2 \<or> e2 < w1 \<or> s1 > n2 \<or> s2 > n1 then None
        else Some (max w1 w2, max s1 s2, min e1 e2, min n1 n2))"

definition MAX_SAFE_INTEGER :: rat where
  "MAX_SAFE_INTEGER = 9007199254740991"

definition bbox_step :: "bbox \<Rightarrow> point \<Rightarrow> bbox" where
  "bbox_step b p =
     (case b of (w, s, e, n) \<Rightarrow> case p of (x, y) \<Rightarrow>
        (if x < w then x else w, if y < s then y else s,
         if x > e then x else e, if y > n then y else n))"

definition bbox_of :: "point list \<Rightarrow> bbox" where
  "bbox_of line =
     foldl bbox_step (MAX_SAFE_INTEGER, MAX_SAFE_INTEGER, - MAX_SAFE_INTEGER, - MAX_SAFE_INTEGER) line"

definition bbox_contains :: "bbox \<Rightarrow> point \<Rightarrow> bool" where
  "bbox_contains b p =
     (case b of (w, s, e, n) \<Rightarrow> case p of (x, y) \<Rightarrow> x \<ge> w \<and> x \<le> e \<and> y \<ge> s \<and> y \<le> n)"

text \<open>
  \<open>ringIntersect\<close>: each of its two loops returns at the first point inside the common box
  whose crossing number is not zero; \<open>first_crossing\<close> is one such loop, \<open>None\<close> when it
  runs to its end.
\<close>

fun first_crossing :: "bbox \<Rightarrow> point list \<Rightarrow> point list \<Rightarrow> nat option" where
  "first_crossing bb against [] = None"
| "first_crossing bb against (p # ps) =
     (if \<not> bbox_contains bb p then first_crossing bb against ps
      else let c = insideRing p against
           in if c \<noteq> 0 then Some c else first_crossing bb against ps)"

definition ringIntersect :: "point list \<Rightarrow> bbox \<Rightarrow> point list \<Rightarrow> bbox \<Rightarrow> bool" where
  "ringIntersect ring b1 hole b2 =
     (case bbox_intersection b1 b2 of
        None \<Rightarrow> False
      | Some bb \<Rightarrow>
          (case first_crossing bb ring hole of
             Some c \<Rightarrow> odd c
           | None \<Rightarrow>
               (case first_crossing bb hole ring of
                  Some c \<Rightarrow> odd c
                | None \<Rightarrow> False)))"

section \<open>Polygon assembly (\<open>parseRecord\<close>, the polygon case)\<close>

text \<open>
  The objects \<open>{ ring, area, bbox, outer }\<close> that \<open>parseRecord\<close> builds for the rings of a
  polygon record. The source stores in \<open>outer\<close> a reference to an element of the array
  \<open>outers\<close>; that array only ever grows at its end, so the reference is modelled as the
  position of the element in \<open>outers\<close>.
\<close>

record ring_rec =
  ring :: "point list"
  area :: rat
  bbox :: bbox
  outer :: "nat option"

text \<open>
  The first loop over \<open>lines\<close>: each ring is checked in turn, first by \<open>ringClosed\<close>, then by
  \<open>ringArea\<close>, and the first throw ends the decoding.
\<close>

fun check_rings :: "point list list \<Rightarrow> error + ring_rec list" where
  "check_rings [] = Inr []"
| "check_rings (r # rs) =
     (case ringClosed r of
        Inl e \<Rightarrow> Inl e
      | Inr ok \<Rightarrow>
          if \<not> ok then Inl RingNotClosed
          else (case ringArea r of
                  Inl e \<Rightarrow> Inl e
                | Inr a \<Rightarrow>
                    if a = 0 then Inl RingAreaIsZero
                    else (case check_rings rs of
                            Inl e \<Rightarrow> Inl e
                          | Inr rings \<Rightarrow>
                              Inr (\<lparr>ring = r, area = a, bbox = bbox_of r, outer = None\<rparr> # rings))))"

text \<open>
  The inner loop \<open>for (const outer of outers)\<close> for one hole: the position of the first
  element of \<open>outers\<close> that is larger than the hole in absolute area and intersects it.
\<close>

fun find_outer :: "ring_rec \<Rightarrow> ring_rec list \<Rightarrow> nat \<Rightarrow> nat option" where
  "find_outer hole [] j = None"
| "find_outer hole (out # outs) j =
     (if area hole \<ge> \<bar>area out\<bar> then find_outer hole outs (Suc j)
      else if ringIntersect (ring out) (bbox out) (ring hole) (bbox hole) then Some j
      else find_outer hole outs (Suc j))"

text \<open>
  The loop \<open>for (const hole of inners)\<close>. A hole with an outer keeps its place in \<open>inners\<close>;
  a hole without one is reversed, its area negated, pushed onto \<open>outers\<close> (where the holes
  after it can find it), and its place in \<open>inners\<close> is set to \<open>null\<close>.
\<close>

fun assign_holes :: "ring_rec list \<Rightarrow> ring_rec list \<Rightarrow> ring_rec list \<times> ring_rec option list" where
  "assign_holes outers [] = (outers, [])"
| "assign_holes outers (hole # holes) =
     (case find_outer hole outers 0 of
        Some j \<Rightarrow>
          (let (outers', inners') = assign_holes outers holes
           in (outers', Some (hole\<lparr>outer := Some j\<rparr>) # inners'))
      | None \<Rightarrow>
          (let (outers', inners') =
                 assign_holes (outers @ [hole\<lparr>ring := rev (ring hole), area := - area hole\<rparr>]) holes
           in (outers', None # inners')))"

text \<open>
  The last two loops: every outer becomes the one-element list of its reversed ring, and
  every hole left in \<open>inners\<close> pushes its reversed ring onto the list of its outer.
\<close>

fun push_holes :: "ring_rec option list \<Rightarrow> point list list list \<Rightarrow> error + point list list list" where
  "push_holes [] polys = Inr polys"
| "push_holes (None # hs) polys = push_holes hs polys"
| "push_holes (Some h # hs) polys =
     (case outer h of
        None \<Rightarrow> Inl NullReference
      | Some j \<Rightarrow>
          if j < length polys then push_holes hs (polys[j := polys ! j @ [rev (ring h)]])
          else Inl NullReference)"

definition polygon_geometry :: "point list list \<Rightarrow> error + geometry" where
  "polygon_geometry lines =
     (case check_rings lines of
        Inl e \<Rightarrow> Inl e
      | Inr rings0 \<Rightarrow>
          (let rings = sort_key area rings0;
               outers = filter (\<lambda>r. area r < 0) rings;
               inners = filter (\<lambda>r. area r > 0) rings;
               (outers', inners') = assign_holes outers inners
           in if length outers' = 0 then Inl NoOuterRings
              else (case push_holes inners' (map (\<lambda>r. [rev (ring r)]) outers') of
                      Inl e \<Rightarrow> Inl e
                    | Inr polys \<Rightarrow>
                        Inr (if length outers' = 1 then Polygon (polys ! 0)
                             else MultiPolygon polys))))"


section \<open>Reading bytes (\<open>DataView\<close>)\<close>

text \<open>
  An \<open>ArrayBuffer\<close> is a list of bytes. The getters of a \<open>DataView\<close> over a whole buffer take
  a position, which is a JavaScript number and may be negative, and throw a \<open>RangeError\<close>
  when the bytes they read are not all inside the buffer. The integers they return are
  JavaScript numbers as well, of type \<open>int\<close> here. \<open>ebind\<close> passes the first throw on.
\<close>

definition ebind :: "'e + 'a \<Rightarrow> ('a \<Rightarrow> 'e + 'b) \<Rightarrow> 'e + 'b" where
  "ebind m f = (case m of Inl e \<Rightarrow> Inl e | Inr x \<Rightarrow> f x)"

definition in_range :: "byte list \<Rightarrow> int \<Rightarrow> nat \<Rightarrow> bool" where
  "in_range bytes p k = (0 \<le> p \<and> p + int k \<le> int (length bytes))"

definition byte_at :: "byte list \<Rightarrow> int \<Rightarrow> int" where
  "byte_at bytes p = uint (bytes ! nat p)"

definition getUint8 :: "byte list \<Rightarrow> int \<Rightarrow> error + int" where
  "getUint8 bytes p = (if in_range bytes p 1 then Inr (byte_at bytes p) else Inl RangeError)"

definition getUint16LE :: "byte list \<Rightarrow> int \<Rightarrow> error + int" where
  "getUint16LE bytes p =
     (if in_range bytes p 2 then Inr (byte_at bytes p + 256 * byte_at bytes (p + 1))
      else Inl RangeError)"

definition getUint32LE :: "byte list \<Rightarrow> int \<Rightarrow> error + int" where
  "getUint32LE bytes p =
     (if in_range bytes p 4
      then Inr (byte_at bytes p + 256 * byte_at bytes (p + 1)
                + 65536 * byte_at bytes (p + 2) + 16777216 * byte_at bytes (p + 3))
      else Inl RangeError)"

definition to_int32 :: "int \<Rightarrow> int" where
  "to_int32 u = (if u < 2147483648 then u else u - 4294967296)"


definition getInt32BE :: "byte list \<Rightarrow> int \<Rightarrow> error + int" where
  "getInt32BE bytes p =
     (if in_range bytes p 4
      then Inr (to_int32 (byte_at bytes (p + 3) + 256 * byte_at bytes (p + 2)
                + 65536 * byte_at bytes (p + 1) + 16777216 * byte_at bytes p))
      else Inl RangeError)"

text \<open>
  \<open>getFloat64(p, true)\<close> reads eight bytes. How the eight bytes of an IEEE double denote a
  number is left open: \<open>f64\<close>, a parameter of every function that reads coordinates, maps
  the eight bytes (in the order of the buffer) to the number they stand for.
\<close>

definition getFloat64LE :: "(byte list \<Rightarrow> rat) \<Rightarrow> byte list \<Rightarrow> int \<Rightarrow> error + rat" where
  "getFloat64LE f64 bytes p =
     (if in_range bytes p 8 then Inr (f64 (take 8 (drop (nat p) bytes))) else Inl RangeError)"



section \<open>Geometry records (\<open>common.js\<close>)\<close>

text \<open>
  A GeoJSON feature as \<open>parseRecord\<close> builds it; its \<open>type\<close> is always \<open>Feature\<close>. The
  member \<open>bbox\<close> is absent for a null shape and for a point. \<open>properties\<close> is \<open>null\<close> until
  \<open>stitch\<close> fills it.
\<close>

record 'p feature =
  fbbox :: "bbox option"
  geometry :: "geometry option"
  properties :: "'p option"

definition parseBBox ::
  "(byte list \<Rightarrow> rat) \<Rightarrow> byte list \<Rightarrow> int \<Rightarrow> (point \<Rightarrow> point) \<Rightarrow> error + bbox" where
  "parseBBox f64 bytes off proj =
     ebind (getFloat64LE f64 bytes off) (\<lambda>x0.
     ebind (getFloat64LE f64 bytes (off + 8)) (\<lambda>y0.
     case proj (x0, y0) of (xmin, ymin) \<Rightarrow>
     ebind (getFloat64LE f64 bytes (off + 16)) (\<lambda>x1.
     ebind (getFloat64LE f64 bytes (off + 24)) (\<lambda>y1.
     case proj (x1, y1) of (xmax, ymax) \<Rightarrow>
     Inr (xmin, ymin, xmax, ymax)))))"

text \<open>\<open>parseHeader\<close> returns \<open>{ bbox, filesize }\<close>, here the pair of the two.\<close>

definition parseHeader ::
  "(byte list \<Rightarrow> rat) \<Rightarrow> byte list \<Rightarrow> (point \<Rightarrow> point) \<Rightarrow> error + (bbox \<times> int)" where
  "parseHeader f64 bytes proj =
     ebind (getInt32BE bytes 0) (\<lambda>magic.
     if magic \<noteq> 9994 then Inl NotShapefile
     else ebind (getInt32BE bytes 24) (\<lambda>len.
          let filesize = len * 2
          in ebind (parseBBox f64 bytes 36 proj) (\<lambda>bbox. Inr (bbox, filesize))))"






section \<open>Attribute rows (\<open>common.js\<close>)\<close>

text \<open>
  A JavaScript string is a list of UTF-16 code units, \<open>str\<close> writes one down from ASCII
  text. A \<open>TextDecoder\<close> is a function from bytes to strings and a parameter of the
  functions that use one; \<open>ascii_decoder\<close>, one code unit for each byte, is what every
  ASCII-compatible \<open>TextDecoder\<close> does on bytes below 128.
\<close>

type_synonym jsstring = "int list"

definition str :: "string \<Rightarrow> jsstring" where
  "str s = map of_char s"

definition ascii_decoder :: "byte list \<Rightarrow> jsstring" where
  "ascii_decoder bytes = map uint bytes"

text \<open>
  \<open>String.prototype.trim\<close> removes white space and line terminators from both ends:
  TAB, LF, VT, FF, CR, SP, NBSP, the Unicode space separators, LS, PS and the BOM.
\<close>

definition js_space :: "int \<Rightarrow> bool" where
  "js_space c = (c \<in> {9, 10, 11, 12, 13, 32, 160, 5760, 8232, 8233, 8239, 8287, 12288, 65279}
                 \<or> (8192 \<le> c \<and> c \<le> 8202))"

definition trim :: "jsstring \<Rightarrow> jsstring" where
  "trim s = rev (dropWhile js_space (rev (dropWhile js_space s)))"

text \<open>
  \<open>toLowerCase\<close> on the letters A to Z. The source compares the result with the one-letter
  strings y, t, n and f only, and no other character has one of these as its lower case.
\<close>

definition toLowerCase :: "jsstring \<Rightarrow> jsstring" where
  "toLowerCase s = map (\<lambda>c. if 65 \<le> c \<and> c \<le> 90 then c + 32 else c) s"

text \<open>
  \<open>replace(/\0.*$/, '')\<close>: the match starts at the first NUL after which no line terminator
  follows (the dot does not match LF, CR, LS and PS) and runs to the end of the string.
\<close>

definition line_terminator :: "int \<Rightarrow> bool" where
  "line_terminator c = (c \<in> {10, 13, 8232, 8233})"

fun replace_nul :: "jsstring \<Rightarrow> jsstring" where
  "replace_nul [] = []"
| "replace_nul (c # cs) =
     (if c = 0 \<and> \<not> (\<exists>d \<in> set cs. line_terminator d) then [] else c # replace_nul cs)"

text \<open>
  The value of \<open>Number(s)\<close>: a JavaScript number is a finite number (here an exact rational),
  an infinity or \<open>NaN\<close>. \<open>js_Number\<close> follows the grammar of a numeric string in the
  language standard: an optional sign, then \<open>Infinity\<close> or decimal digits with an optional
  fraction and an optional exponent; or, without a sign, a binary, octal or hexadecimal
  integer; the empty string is 0; anything else is \<open>NaN\<close>. White space around the literal
  is allowed, and the callers below have trimmed it already.
\<close>

datatype jsnumber = Finite rat | PosInfinity | NegInfinity | NaN

definition is_digit :: "int \<Rightarrow> bool" where
  "is_digit c = (48 \<le> c \<and> c \<le> 57)"

definition digit_val :: "int \<Rightarrow> int" where
  "digit_val c =
     (if 48 \<le> c \<and> c \<le> 57 then c - 48
      else if 97 \<le> c \<and> c \<le> 102 then c - 87
      else c - 55)"

definition digits_val :: "int \<Rightarrow> int list \<Rightarrow> int" where
  "digits_val base ds = foldl (\<lambda>acc c. acc * base + digit_val c) 0 ds"

definition is_digit_of :: "int \<Rightarrow> int \<Rightarrow> bool" where
  "is_digit_of base c =
     (if base = 16 then is_digit c \<or> (97 \<le> c \<and> c \<le> 102) \<or> (65 \<le> c \<and> c \<le> 70)
      else 48 \<le> c \<and> c < 48 + base)"

definition parse_exponent :: "jsstring \<Rightarrow> int option" where
  "parse_exponent s =
     (case s of
        [] \<Rightarrow> Some 0
      | c # r \<Rightarrow>
          if c = 101 \<or> c = 69 then
            (let (neg, ds) = (case r of
                                [] \<Rightarrow> (False, [])
                              | d # r' \<Rightarrow> if d = 45 then (True, r') else if d = 43 then (False, r')
                                          else (False, r))
             in if ds \<noteq> [] \<and> list_all is_digit ds
                then Some (if neg then - digits_val 10 ds else digits_val 10 ds)
                else None)
          else None)"

definition parse_unsigned_decimal :: "jsstring \<Rightarrow> rat option" where
  "parse_unsigned_decimal s =
     (let ip = takeWhile is_digit s; r1 = dropWhile is_digit s;
          (fp, r2) = (case r1 of
                        [] \<Rightarrow> ([], [])
                      | c # r \<Rightarrow> if c = 46 then (takeWhile is_digit r, dropWhile is_digit r)
                                  else ([], r1))
      in if ip = [] \<and> fp = [] then None
         else (case parse_exponent r2 of
                 None \<Rightarrow> None
               | Some e \<Rightarrow>
                   Some ((of_int (digits_val 10 ip) + of_int (digits_val 10 fp) / 10 ^ length fp)
                         * (if e < 0 then 1 / 10 ^ nat (- e) else 10 ^ nat e))))"

definition parse_radix :: "jsstring \<Rightarrow> int option" where
  "parse_radix s =
     (case s of
        c0 # c1 # ds \<Rightarrow>
          (let base = (if c1 = 120 \<or> c1 = 88 then 16 else if c1 = 111 \<or> c1 = 79 then 8
                       else if c1 = 98 \<or> c1 = 66 then 2 else (0::int))
           in if c0 = 48 \<and> base \<noteq> 0 \<and> ds \<noteq> [] \<and> list_all (is_digit_of base) ds
              then Some (digits_val base ds) else None)
      | _ \<Rightarrow> None)"

definition js_Number :: "jsstring \<Rightarrow> jsnumber" where
  "js_Number s0 =
     (let s = trim s0
      in if s = [] then Finite 0
         else (case parse_radix s of
                 Some n \<Rightarrow> Finite (of_int n)
               | None \<Rightarrow>
                   (let neg = (hd s = 45); u = (if hd s = 45 \<or> hd s = 43 then tl s else s)
                    in if u = str ''Infinity'' then (if neg then NegInfinity else PosInfinity)
                       else (case parse_unsigned_decimal u of
                               None \<Rightarrow> NaN
                             | Some q \<Rightarrow> Finite (if neg then - q else q)))))"

text \<open>The values a row can hold, the field descriptors and the header.\<close>

datatype jsvalue = Null | Number jsnumber | String jsstring | Boolean bool

record field =
  name :: jsstring
  type :: int
  size :: int

text \<open>
  A \<open>DataView\<close> over a part of a buffer: the buffer, \<open>byteOffset\<close> and \<open>byteLength\<close>. The
  constructor throws a \<open>RangeError\<close> when the part is not inside the buffer.
\<close>

type_synonym dataview = "byte list \<times> nat \<times> nat"

definition DataView :: "byte list \<Rightarrow> int \<Rightarrow> int \<Rightarrow> error + dataview" where
  "DataView buffer byteOffset byteLength =
     (if 0 \<le> byteOffset \<and> 0 \<le> byteLength \<and> byteOffset + byteLength \<le> int (length buffer)
      then Inr (buffer, nat byteOffset, nat byteLength) else Inl RangeError)"

definition view_bytes :: "dataview \<Rightarrow> byte list" where
  "view_bytes v = (case v of (buffer, byteOffset, byteLength) \<Rightarrow> take byteLength (drop byteOffset buffer))"

definition view_getUint8 :: "dataview \<Rightarrow> int \<Rightarrow> error + int" where
  "view_getUint8 v p = getUint8 (view_bytes v) p"

definition dbfHeader :: "byte list \<Rightarrow> error + (int \<times> int)" where
  "dbfHeader bytes =
     ebind (getUint8 bytes 0) (\<lambda>b0.
     let version = b0 AND 7
     in if version \<noteq> 3 then Inl (DBFFormatNotImplemented version)
        else ebind (getUint32LE bytes 4) (\<lambda>numrec.
             ebind (getUint16LE bytes 10) (\<lambda>reclen.
             ebind (getUint8 bytes 15) (\<lambda>encrypted.
             if encrypted \<noteq> 0 then Inl EncryptedDBF else Inr (numrec, reclen)))))"

definition dbfField :: "byte list \<Rightarrow> int \<Rightarrow> (byte list \<Rightarrow> jsstring) \<Rightarrow> error + field option" where
  "dbfField bytes pos decoder =
     ebind (getUint8 bytes pos) (\<lambda>b.
     if b = 13 then Inr None
     else ebind (DataView bytes pos 11) (\<lambda>v.
          let name = replace_nul (trim (decoder (view_bytes v)))
          in ebind (getUint8 bytes (pos + 11)) (\<lambda>type.
             ebind (getUint8 bytes (pos + 16)) (\<lambda>size.
             Inr (Some \<lparr>name = name, type = type, size = size\<rparr>)))))"

text \<open>
  \<open>dbfRecord\<close>. The row is an object whose properties are set in the order of the fields;
  it is modelled as an association list in insertion order, a second assignment to a
  name replacing the value in place. \<open>field_value\<close> is the \<open>switch\<close> on the type of a field,
  \<open>col\<close> the view of its bytes.
\<close>

type_synonym row = "(jsstring \<times> jsvalue) list"

fun row_set :: "jsstring \<Rightarrow> jsvalue \<Rightarrow> row \<Rightarrow> row" where
  "row_set k v [] = [(k, v)]"
| "row_set k v ((k', v') # r) = (if k' = k then (k, v) # r else (k', v') # row_set k v r)"

definition strip_nuls :: "jsstring \<Rightarrow> jsstring" where
  "strip_nuls s = rev (dropWhile (\<lambda>c. c = 0) (rev s))"

definition field_value :: "(byte list \<Rightarrow> jsstring) \<Rightarrow> dataview \<Rightarrow> int \<Rightarrow> error + jsvalue" where
  "field_value decoder col ty =
     (if ty = of_char CHR ''C'' then Inr (String (strip_nuls (trim (decoder (view_bytes col)))))
      else if ty = of_char CHR ''D'' then Inr (String (trim (decoder (view_bytes col))))
      else if ty = of_char CHR ''N'' \<or> ty = of_char CHR ''F'' then
        (let s = trim (decoder (view_bytes col))
         in Inr (if s = [] then Null else Number (js_Number s)))
      else if ty = of_char CHR ''L'' then
        (let s = trim (toLowerCase (decoder (view_bytes col)))
         in if s = str ''y'' \<or> s = str ''t'' then Inr (Boolean True)
            else if s = str ''n'' \<or> s = str ''f'' then Inr (Boolean False)
            else Inr Null)
      else Inl (DBFFieldTypeNotImplemented ty))"

fun dbf_columns ::
  "dataview \<Rightarrow> (byte list \<Rightarrow> jsstring) \<Rightarrow> field list \<Rightarrow> int \<Rightarrow> row \<Rightarrow> error + row" where
  "dbf_columns view decoder [] pos row = Inr row"
| "dbf_columns view decoder (f # fs) pos row =
     (case view of (buffer, byteOffset, byteLength) \<Rightarrow>
        ebind (DataView buffer (int byteOffset + pos + 1) (size f)) (\<lambda>col.
        ebind (field_value decoder col (type f)) (\<lambda>v.
        dbf_columns view decoder fs (pos + size f) (row_set (name f) v row))))"

definition dbfRecord :: "dataview \<Rightarrow> field list \<Rightarrow> (byte list \<Rightarrow> jsstring) \<Rightarrow> error + row" where
  "dbfRecord view flds decoder = dbf_columns view decoder flds 0 []"

section \<open>The stream transformers (\<open>parser.js\<close>)\<close>

text \<open>
  What \<open>parser.js\<close> throws: an error passed on from a function it calls (or from the runtime),
  and the errors of its own \<open>throw\<close> statements.
\<close>

datatype exn =
    Thrown error
  | SHPTransformBug
  | ReadableBytesRemained int
  | DBFFormatError
  | RecordsRemained int
  | NotEnoughFeatureRecords
  | NotEnoughDbfRecords

text \<open>
  The variables that both transformers close over, and \<open>queue\<close>, the chunks that have been
  handed to \<open>controller.enqueue\<close> so far. A chunk of input is taken to be a view of the whole
  of its \<open>ArrayBuffer\<close>, so that \<open>chunk.buffer\<close> holds the bytes of the chunk and nothing else.
\<close>

record 'a transform_state =
  buffer :: "byte list option"
  offset :: int
  needed :: int
  status :: int
  queue :: "'a list"

text \<open>One pass through the body of \<open>while (true)\<close> goes on, returns or throws.\<close>

datatype 's outcome = Continue 's | Return 's | Throw 's exn

text \<open>\<open>ArrayBuffer.prototype.slice(begin)\<close> and the start of both \<open>transform\<close> methods.\<close>

definition buffer_slice :: "byte list \<Rightarrow> int \<Rightarrow> byte list" where
  "buffer_slice buf begin =
     (let len = int (length buf);
          first = (if begin < 0 then max (len + begin) 0 else min begin len)
      in drop (nat first) buf)"

definition append_chunk ::
  "('a, 'z) transform_state_scheme \<Rightarrow> byte list \<Rightarrow> ('a, 'z) transform_state_scheme" where
  "append_chunk st chunk =
     (case buffer st of
        None \<Rightarrow> st\<lparr>buffer := Some chunk\<rparr>
      | Some buf \<Rightarrow> st\<lparr>buffer := Some (buffer_slice buf (offset st) @ chunk), offset := 0\<rparr>)"

subsection \<open>\<open>SHPTransform\<close>\<close>

text \<open>
  \<open>parser.js\<close> imports the decoders of the header and of a record from \<open>common.js\<close> as
  \<open>shpHeader\<close> and \<open>shpRecord\<close>, with the projection and the flag \<open>withM\<close> as further
  arguments. They are parameters here, functions of the buffer (and the offset); the
  functions \<open>parseHeader\<close> and \<open>parseRecord\<close> above are instances. The array \<open>bbox\<close> of the
  caller is the slot \<open>bbox_slot\<close>, empty until the header has been read.
\<close>

record 'a shp_state = "'a transform_state" +
  filesize :: int
  bbox_slot :: "bbox option"

definition shp_init :: "'a shp_state" where
  "shp_init = \<lparr>buffer = None, offset = 0, needed = 100, status = 0, queue = [],
               filesize = 0, bbox_slot = None\<rparr>"

definition shp_body ::
  "(byte list \<Rightarrow> error + bbox \<times> int) \<Rightarrow> (byte list \<Rightarrow> int \<Rightarrow> error + 'a) \<Rightarrow>
   'a shp_state \<Rightarrow> 'a shp_state outcome" where
  "shp_body shpHeader shpRecord st =
     (case buffer st of
        None \<Rightarrow> Throw st (Thrown NullReference)
      | Some buf \<Rightarrow>
          if int (length buf) - offset st < needed st then Return st
          else if status st = 0 then
            (case shpHeader buf of
               Inl e \<Rightarrow> Throw st (Thrown e)
             | Inr (hbbox, hfilesize) \<Rightarrow>
                 Continue (st\<lparr>bbox_slot := Some hbbox, filesize := hfilesize - 100,
                              status := 1, offset := 100, needed := 8\<rparr>))
          else if status st = 1 then
            (case getInt32BE buf (offset st + 4) of
               Inl e \<Rightarrow> Throw st (Thrown e)
             | Inr len \<Rightarrow>
                 Continue (st\<lparr>needed := len * 2, offset := offset st + 8,
                              filesize := filesize st - 8, status := 2\<rparr>))
          else if status st = 2 then
            (case shpRecord buf (offset st) of
               Inl e \<Rightarrow> Throw st (Thrown e)
             | Inr ft \<Rightarrow>
                 Continue (st\<lparr>queue := queue st @ [ft], offset := offset st + needed st,
                              filesize := filesize st - needed st, needed := 8, status := 1\<rparr>))
          else Throw st SHPTransformBug)"

partial_function (option) shp_loop ::
  "(byte list \<Rightarrow> error + bbox \<times> int) \<Rightarrow> (byte list \<Rightarrow> int \<Rightarrow> error + 'a) \<Rightarrow>
   'a shp_state \<Rightarrow> ('a shp_state \<times> exn option) option" where
  "shp_loop shpHeader shpRecord st =
     (case shp_body shpHeader shpRecord st of
        Continue st' \<Rightarrow> shp_loop shpHeader shpRecord st'
      | Return st' \<Rightarrow> Some (st', None)
      | Throw st' e \<Rightarrow> Some (st', Some e))"

definition shp_transform ::
  "(byte list \<Rightarrow> error + bbox \<times> int) \<Rightarrow> (byte list \<Rightarrow> int \<Rightarrow> error + 'a) \<Rightarrow>
   'a shp_state \<Rightarrow> byte list \<Rightarrow> ('a shp_state \<times> exn option) option" where
  "shp_transform shpHeader shpRecord st chunk = shp_loop shpHeader shpRecord (append_chunk st chunk)"

definition shp_flush :: "'a shp_state \<Rightarrow> exn option" where
  "shp_flush st = (if filesize st \<noteq> 0 then Some (ReadableBytesRemained (filesize st)) else None)"

text \<open>
  The stream: \<open>transform\<close> for every chunk in turn, then \<open>flush\<close>; a throw ends it. The
  result is the last state and what was thrown, \<open>None\<close> when a call of \<open>transform\<close> does
  not return.
\<close>

fun shp_run ::
  "(byte list \<Rightarrow> error + bbox \<times> int) \<Rightarrow> (byte list \<Rightarrow> int \<Rightarrow> error + 'a) \<Rightarrow>
   'a shp_state \<Rightarrow> byte list list \<Rightarrow> ('a shp_state \<times> exn option) option" where
  "shp_run shpHeader shpRecord st [] = Some (st, shp_flush st)"
| "shp_run shpHeader shpRecord st (chunk # chunks) =
     (case shp_transform shpHeader shpRecord st chunk of
        None \<Rightarrow> None
      | Some (st', Some e) \<Rightarrow> Some (st', Some e)
      | Some (st', None) \<Rightarrow> shp_run shpHeader shpRecord st' chunks)"

subsection \<open>\<open>DBFTransform\<close>\<close>

text \<open>
  The array \<open>fields\<close> of the closure is \<open>dbf_fields\<close> here (\<open>fields\<close> is a name that every
  record declaration takes).
\<close>

record dbf_state = "row transform_state" +
  numrec :: int
  reclen :: int
  dbf_fields :: "field list"

definition dbf_init :: dbf_state where
  "dbf_init = \<lparr>buffer = None, offset = 0, needed = 32, status = 0, queue = [],
               numrec = 0, reclen = 0, dbf_fields = []\<rparr>"

definition dbf_body :: "(byte list \<Rightarrow> jsstring) \<Rightarrow> dbf_state \<Rightarrow> dbf_state outcome" where
  "dbf_body decoder st =
     (case buffer st of
        None \<Rightarrow> Throw st (Thrown NullReference)
      | Some buf \<Rightarrow>
          if int (length buf) - offset st < needed st then Return st
          else if status st = 0 then
            (case dbfHeader buf of
               Inl e \<Rightarrow> Throw st (Thrown e)
             | Inr (hnumrec, hreclen) \<Rightarrow>
                 Continue (st\<lparr>numrec := hnumrec, reclen := hreclen,
                              offset := 32, needed := 32, status := 1\<rparr>))
          else if status st = 1 then
            (case dbfField buf (offset st) decoder of
               Inl e \<Rightarrow> Throw st (Thrown e)
             | Inr None \<Rightarrow>
                 Continue (st\<lparr>status := 2, needed := reclen st, offset := offset st + 1\<rparr>)
             | Inr (Some field) \<Rightarrow>
                 Continue (st\<lparr>dbf_fields := dbf_fields st @ [field], offset := offset st + needed st\<rparr>))
          else if status st = 2 then
            (case DataView buf (offset st) (reclen st) of
               Inl e \<Rightarrow> Throw st (Thrown e)
             | Inr view \<Rightarrow>
                 (case view_getUint8 view 0 of
                    Inl e \<Rightarrow> Throw st (Thrown e)
                  | Inr flag \<Rightarrow>
                      if flag = 42 then
                        Continue (st\<lparr>offset := offset st + needed st, numrec := numrec st - 1\<rparr>)
                      else if flag \<noteq> 32 then Throw st DBFFormatError
                      else (case dbfRecord view (dbf_fields st) decoder of
                              Inl e \<Rightarrow> Throw st (Thrown e)
                            | Inr row \<Rightarrow>
                                Continue (st\<lparr>queue := queue st @ [row],
                                             offset := offset st + needed st,
                                             numrec := numrec st - 1\<rparr>))))
          else Continue st)"

partial_function (option) dbf_loop ::
  "(byte list \<Rightarrow> jsstring) \<Rightarrow> dbf_state \<Rightarrow> (dbf_state \<times> exn option) option" where
  "dbf_loop decoder st =
     (case dbf_body decoder st of
        Continue st' \<Rightarrow> dbf_loop decoder st'
      | Return st' \<Rightarrow> Some (st', None)
      | Throw st' e \<Rightarrow> Some (st', Some e))"

definition dbf_transform ::
  "(byte list \<Rightarrow> jsstring) \<Rightarrow> dbf_state \<Rightarrow> byte list \<Rightarrow> (dbf_state \<times> exn option) option" where
  "dbf_transform decoder st chunk = dbf_loop decoder (append_chunk st chunk)"

definition dbf_flush :: "dbf_state \<Rightarrow> exn option" where
  "dbf_flush st = (if numrec st \<noteq> 0 then Some (RecordsRemained (numrec st)) else None)"

fun dbf_run ::
  "(byte list \<Rightarrow> jsstring) \<Rightarrow> dbf_state \<Rightarrow> byte list list \<Rightarrow> (dbf_state \<times> exn option) option" where
  "dbf_run decoder st [] = Some (st, dbf_flush st)"
| "dbf_run decoder st (chunk # chunks) =
     (case dbf_transform decoder st chunk of
        None \<Rightarrow> None
      | Some (st', Some e) \<Rightarrow> Some (st', Some e)
      | Some (st', None) \<Rightarrow> dbf_run decoder st' chunks)"

subsection \<open>\<open>stitch\<close>\<close>

text \<open>
  A readable stream is the list of the chunks it delivers and the way it ends: closed
  (\<open>None\<close>) or with an error, which \<open>read\<close> throws. \<open>stitch\<close> returns the features it has
  yielded and how it ended, \<open>None\<close> for the \<open>break\<close>.
\<close>

type_synonym 'a readable = "'a list \<times> exn option"

fun stitch :: "'p feature readable \<Rightarrow> 'p readable \<Rightarrow> 'p feature list \<times> exn option" where
  "stitch (f # fs, fe) (p # ps, pe) =
     (case stitch (fs, fe) (ps, pe) of (out, r) \<Rightarrow> (f\<lparr>properties := Some p\<rparr> # out, r))"
| "stitch (f # fs, fe) ([], Some e) = ([], Some e)"
| "stitch (f # fs, fe) ([], None) = ([], Some NotEnoughDbfRecords)"
| "stitch ([], Some e) dbf = ([], Some e)"
| "stitch ([], None) ([], Some e) = ([], Some e)"
| "stitch ([], None) ([], None) = ([], None)"
| "stitch ([], None) (p # ps, pe) = ([], Some NotEnoughFeatureRecords)"

section \<open>Notions used in the properties\<close>

text \<open>
  The signed area of a ring is half its Shoelace sum, whether or not \<open>ringArea\<close> accepts the
  ring. A polygon of the output is a list of rings, the exterior ring first and the holes
  after it; its winding is right when the exterior ring has positive and every hole has
  negative signed area.
\<close>

definition signed_area :: "point list \<Rightarrow> rat" where
  "signed_area r = (1 / 2) * ring_sum r"


definition winding_ok :: "point list list \<Rightarrow> bool" where
  "winding_ok poly =
     (poly \<noteq> [] \<and> 0 < signed_area (hd poly) \<and> (\<forall>h \<in> set (tl poly). signed_area h < 0))"

text \<open>
  Invariants of the assembly: the stored area of a ring object is the signed area of its
  ring; an element of \<open>outers\<close> has negative area; an element left in \<open>inners\<close> has positive
  area and an outer among the first \<open>n\<close> elements of \<open>outers\<close>.
\<close>

definition consistent :: "ring_rec \<Rightarrow> bool" where
  "consistent r = (area r = signed_area (ring r))"

definition is_outer :: "ring_rec \<Rightarrow> bool" where
  "is_outer r = (consistent r \<and> area r < 0)"

definition is_hole :: "nat \<Rightarrow> ring_rec option \<Rightarrow> bool" where
  "is_hole n ho =
     (case ho of
        None \<Rightarrow> True
      | Some h \<Rightarrow> consistent h \<and> 0 < area h \<and> (case outer h of None \<Rightarrow> False | Some j \<Rightarrow> j < n))"



text \<open>
  Rings for the examples: a square \<open>land\<close>, in it a \<open>lake\<close>, in the lake an \<open>island\<close>, on the
  island a \<open>pond\<close>, and a \<open>rock\<close> far from all of them. In the source file an exterior ring
  is clockwise and a hole is counter-clockwise.
\<close>

definition land :: "point list" where
  "land = [(0, 0), (0, 20), (20, 20), (20, 0), (0, 0)]"

definition lake :: "point list" where
  "lake = [(2, 2), (18, 2), (18, 18), (2, 18), (2, 2)]"

definition island :: "point list" where
  "island = [(4, 4), (4, 16), (16, 16), (16, 4), (4, 4)]"

definition pond :: "point list" where
  "pond = [(8, 8), (12, 8), (12, 12), (8, 12), (8, 8)]"

definition rock :: "point list" where
  "rock = [(30, 30), (31, 30), (31, 31), (30, 31), (30, 30)]"




section \<open>Notions used in the properties of the transformers\<close>

text \<open>
  The bytes a transformer has received and not yet consumed, and what a run shows to the
  outside: the chunks it has enqueued, the bounding box, and what it threw.
\<close>

definition rest :: "('a, 'z) transform_state_scheme \<Rightarrow> byte list" where
  "rest st = (case buffer st of None \<Rightarrow> [] | Some buf \<Rightarrow> buffer_slice buf (offset st))"

definition shp_result ::
  "('a shp_state \<times> exn option) option \<Rightarrow> ('a list \<times> bbox option \<times> exn option) option" where
  "shp_result r = map_option (\<lambda>(st, e). (queue st, bbox_slot st, e)) r"

definition dbf_result :: "(dbf_state \<times> exn option) option \<Rightarrow> (row list \<times> exn option) option" where
  "dbf_result r = map_option (\<lambda>(st, e). (queue st, e)) r"

text \<open>
  A window: the bytes of \<open>buf\<close> from \<open>off\<close> on are the first of the bytes of \<open>buf'\<close> from \<open>off'\<close>
  on, and \<open>extra\<close> are the bytes that follow them there.
\<close>

definition window :: "byte list \<Rightarrow> int \<Rightarrow> byte list \<Rightarrow> int \<Rightarrow> byte list \<Rightarrow> bool" where
  "window buf off buf' off' extra =
     (0 \<le> off \<and> off \<le> int (length buf) \<and> 0 \<le> off' \<and> off' \<le> int (length buf')
      \<and> drop (nat off') buf' = drop (nat off) buf @ extra)"

subsection \<open>Valid geometry streams\<close>

text \<open>
  A geometry stream is valid for the decoders \<open>shpHeader\<close> and \<open>shpRecord\<close> when what they
  return for its header and for each of its records depends on the bytes of the header,
  or of that record, alone, and no record declares a negative length. The decoders are
  called with the whole buffer, so this says that neither reads outside the bytes that
  the stream declares for it. Only the records that are complete in the stream count.
\<close>

definition hdr_local :: "(byte list \<Rightarrow> 'h) \<Rightarrow> byte list \<Rightarrow> bool" where
  "hdr_local shpHeader h = (\<forall>post. shpHeader (h @ post) = shpHeader h)"

definition rec_local :: "(byte list \<Rightarrow> int \<Rightarrow> 'r) \<Rightarrow> byte list \<Rightarrow> bool" where
  "rec_local shpRecord body =
     (\<forall>pre post. shpRecord (pre @ body @ post) (int (length pre)) = shpRecord body 0)"

function shp_records_ok :: "(byte list \<Rightarrow> int \<Rightarrow> 'r) \<Rightarrow> byte list \<Rightarrow> bool" where
  "shp_records_ok shpRecord bs =
     (if length bs < 8 then True
      else (case getInt32BE bs 4 of
              Inl e \<Rightarrow> False
            | Inr len \<Rightarrow>
                0 \<le> len
                \<and> (if int (length bs) - 8 < len * 2 then True
                   else rec_local shpRecord (take (nat (len * 2)) (drop 8 bs))
                        \<and> shp_records_ok shpRecord (drop (8 + nat (len * 2)) bs))))"
  by pat_completeness auto
termination
  by (relation "measure (\<lambda>(d, bs). length bs)") auto

declare shp_records_ok.simps [simp del]

definition shp_valid ::
  "(byte list \<Rightarrow> 'h) \<Rightarrow> (byte list \<Rightarrow> int \<Rightarrow> 'r) \<Rightarrow> byte list \<Rightarrow> bool" where
  "shp_valid shpHeader shpRecord bs =
     (if length bs < 100 then True
      else hdr_local shpHeader (take 100 bs) \<and> shp_records_ok shpRecord (drop 100 bs))"

text \<open>
  The same for a state of the transformer and the bytes \<open>bs\<close> that are still to come for it
  (those in its buffer and those of later chunks); and what holds of the variables of the
  closure between two passes of the loop.
\<close>

definition shp_ok ::
  "(byte list \<Rightarrow> 'h) \<Rightarrow> (byte list \<Rightarrow> int \<Rightarrow> 'r) \<Rightarrow> 'a shp_state \<Rightarrow> byte list \<Rightarrow> bool" where
  "shp_ok shpHeader shpRecord st bs =
     (if status st = 0 then shp_valid shpHeader shpRecord bs
      else if status st = 1 then shp_records_ok shpRecord bs
      else 0 \<le> needed st
           \<and> (if int (length bs) < needed st then True
              else rec_local shpRecord (take (nat (needed st)) bs)
                   \<and> shp_records_ok shpRecord (drop (nat (needed st)) bs)))"

definition shp_inv :: "'a shp_state \<Rightarrow> bool" where
  "shp_inv st =
     ((case buffer st of
         None \<Rightarrow> offset st = 0
       | Some buf \<Rightarrow> 0 \<le> offset st \<and> offset st \<le> int (length buf))
      \<and> (status st = 0 \<and> offset st = 0 \<and> needed st = 100
         \<or> status st = 1 \<and> needed st = 8
         \<or> status st = 2))"

text \<open>The same state over another buffer, its offset moved by \<open>d\<close>.\<close>

definition relocate ::
  "byte list \<Rightarrow> int \<Rightarrow> ('a, 'z) transform_state_scheme \<Rightarrow> ('a, 'z) transform_state_scheme" where
  "relocate buf' d st = st\<lparr>buffer := Some buf', offset := offset st + d\<rparr>"

text \<open>How far a state is from the end of its buffer: what the loop makes smaller.\<close>

definition shp_measure :: "'a shp_state \<Rightarrow> nat" where
  "shp_measure st =
     (case buffer st of
        None \<Rightarrow> 0
      | Some buf \<Rightarrow> 2 * nat (int (length buf) - offset st) + (if status st = 2 then 1 else 0))"

subsection \<open>Valid attribute streams\<close>

text \<open>
  The widths that the field descriptors at the start of \<open>bs\<close> declare, up to the byte 13
  that ends them: \<open>None\<close> when \<open>bs\<close> ends before the transformer can read that byte (it
  reads it only when 32 bytes are there).
\<close>

function dbf_widths :: "byte list \<Rightarrow> int list option" where
  "dbf_widths bs =
     (if length bs < 32 then None
      else if byte_at bs 0 = 13 then Some []
      else map_option (Cons (byte_at bs 16)) (dbf_widths (drop 32 bs)))"
  by pat_completeness auto
termination
  by (relation "measure length") auto

declare dbf_widths.simps [simp del]

text \<open>
  An attribute stream is valid when the fields that it declares fit into the record length
  that it declares: the deletion flag and the widths of all fields together are no more than
  \<open>reclen\<close>. \<open>dbfRecord\<close> reads the fields of a row at their places behind the flag of the
  row, whatever \<open>reclen\<close> is; in an attribute stream that is not valid it reads the row
  that follows (or fails at the end of the buffer).
\<close>

definition dbf_valid :: "byte list \<Rightarrow> bool" where
  "dbf_valid bs =
     (if length bs < 32 then True
      else (case dbfHeader bs of
              Inl e \<Rightarrow> True
            | Inr (hnumrec, hreclen) \<Rightarrow>
                (case dbf_widths (drop 32 bs) of
                   None \<Rightarrow> True
                 | Some ws \<Rightarrow> 1 + sum_list ws \<le> hreclen)))"

definition dbf_ok :: "dbf_state \<Rightarrow> byte list \<Rightarrow> bool" where
  "dbf_ok st bs =
     (if status st = 0 then dbf_valid bs
      else if status st = 1 then
        (case dbf_widths bs of
           None \<Rightarrow> True
         | Some ws \<Rightarrow> 1 + sum_list (map size (dbf_fields st)) + sum_list ws \<le> reclen st)
      else 1 + sum_list (map size (dbf_fields st)) \<le> reclen st)"

definition dbf_inv :: "dbf_state \<Rightarrow> bool" where
  "dbf_inv st =
     ((case buffer st of
         None \<Rightarrow> offset st = 0
       | Some buf \<Rightarrow> 0 \<le> offset st \<and> offset st \<le> int (length buf))
      \<and> list_all (\<lambda>f. 0 \<le> size f) (dbf_fields st)
      \<and> (status st = 0 \<and> offset st = 0 \<and> needed st = 32 \<and> dbf_fields st = []
         \<or> status st = 1 \<and> needed st = 32
         \<or> status st = 2 \<and> needed st = reclen st))"

definition dbf_measure :: "dbf_state \<Rightarrow> nat" where
  "dbf_measure st =
     (case buffer st of None \<Rightarrow> 0 | Some buf \<Rightarrow> nat (int (length buf) - offset st))"

subsection \<open>Examples of attribute streams\<close>

text \<open>
  A numeric field of width 3, and two headers of 32 bytes: one of format 4, and one of
  format 3 with the encryption flag set.
\<close>

definition numeric_field :: field where
  "numeric_field = \<lparr>name = str ''n'', type = of_char CHR ''N'', size = 3\<rparr>"

definition v4_header :: "byte list" where
  "v4_header = 4 # replicate 31 0"

definition encrypted_header :: "byte list" where
  "encrypted_header = [3, 0, 0, 0, 1, 0, 0, 0, 33, 0, 4, 0, 0, 0, 0, 1] @ replicate 16 0"


section \<open>Polygon assembly: properties\<close>

subsection \<open>Reversing a ring negates its Shoelace sum\<close>

lemma ring_sum_rev: "ring_sum (rev r) = - ring_sum r"
proof -
  define l where "l = length r"
  define t where "t = (\<lambda>i. snd (r ! i) *
            (fst (r ! (if i > 0 then i - 1 else l - 1))
             - fst (r ! (if i < l - 1 then i + 1 else 0))))"
  have A: "ring_sum r = sum t {..<l}"
    unfolding ring_sum_def Let_def t_def l_def
    by (simp only: interv_sum_list_conv_sum_set_nat set_upt atLeast0LessThan)
  have lr: "length (rev r) = l" by (simp add: l_def)
  have "ring_sum (rev r) = (\<Sum>i<l. snd (rev r ! i) *
            (fst (rev r ! (if i > 0 then i - 1 else l - 1))
             - fst (rev r ! (if i < l - 1 then i + 1 else 0))))"
    unfolding ring_sum_def Let_def lr
    by (simp only: interv_sum_list_conv_sum_set_nat set_upt atLeast0LessThan)
  also have "\<dots> = (\<Sum>i<l. - t (l - Suc i))"
  proof (rule sum.cong[OF refl])
    fix i assume "i \<in> {..<l}"
    then have il: "i < l" by simp
    have p: "(if i > 0 then i - 1 else l - 1) < l" using il by auto
    have n: "(if i < l - 1 then i + 1 else 0) < l" using il by auto
    have e1: "rev r ! i = r ! (l - Suc i)" using il by (simp add: rev_nth l_def)
    have e2: "rev r ! (if i > 0 then i - 1 else l - 1)
              = r ! (if l - Suc i < l - 1 then (l - Suc i) + 1 else 0)"
      using il p by (auto simp: rev_nth l_def Suc_diff_Suc)
    have e3: "rev r ! (if i < l - 1 then i + 1 else 0)
              = r ! (if l - Suc i > 0 then (l - Suc i) - 1 else l - 1)"
      using il n by (auto simp: rev_nth l_def)
    show "snd (rev r ! i) *
            (fst (rev r ! (if i > 0 then i - 1 else l - 1))
             - fst (rev r ! (if i < l - 1 then i + 1 else 0))) = - t (l - Suc i)"
      unfolding e1 e2 e3 t_def by (simp add: algebra_simps)
  qed
  also have "\<dots> = - (\<Sum>i<l. t (l - Suc i))" by (simp add: sum_negf)
  also have "\<dots> = - sum t {..<l}" by (simp add: sum.nat_diff_reindex)
  finally show ?thesis using A by simp
qed

lemma signed_area_rev: "signed_area (rev r) = - signed_area r"
  by (simp add: signed_area_def ring_sum_rev)

subsection \<open>Invariants of the assembly\<close>

lemma check_rings_consistent:
  "check_rings ls = Inr rs \<Longrightarrow> \<forall>r \<in> set rs. consistent r \<and> area r \<noteq> 0"
proof (induction ls arbitrary: rs)
  case Nil then show ?case by simp
next
  case (Cons l ls)
  then show ?case
    by (auto simp: consistent_def signed_area_def ringArea_def Let_def split: sum.splits if_splits)
qed

lemma find_outer_bound: "find_outer h outs j = Some k \<Longrightarrow> j \<le> k \<and> k < j + length outs"
  by (induction outs arbitrary: j) (fastforce split: if_splits)+

lemma assign_holes_inv:
  "assign_holes outers inners = (outers', inners') \<Longrightarrow>
   \<forall>r \<in> set outers. is_outer r \<Longrightarrow> \<forall>r \<in> set inners. consistent r \<and> 0 < area r \<Longrightarrow>
   (\<forall>r \<in> set outers'. is_outer r) \<and> (\<forall>h \<in> set inners'. is_hole (length outers') h)
   \<and> length outers \<le> length outers'"
proof (induction inners arbitrary: outers outers' inners')
  case Nil
  then show ?case by simp
next
  case (Cons hole holes)
  show ?case
  proof (cases "find_outer hole outers 0")
    case None
    let ?p = "hole\<lparr>ring := rev (ring hole), area := - area hole\<rparr>"
    obtain o2 i2 where r: "assign_holes (outers @ [?p]) holes = (o2, i2)" by fastforce
    have eq: "outers' = o2" "inners' = None # i2" using Cons.prems(1) None r by auto
    have po: "is_outer ?p" using Cons.prems(3)
      by (simp add: is_outer_def consistent_def signed_area_rev)
    have "(\<forall>r \<in> set o2. is_outer r) \<and> (\<forall>h \<in> set i2. is_hole (length o2) h)
        \<and> length (outers @ [?p]) \<le> length o2"
      by (rule Cons.IH[OF r]) (use Cons.prems po in auto)
    then show ?thesis using eq by (auto simp: is_hole_def)
  next
    case (Some j)
    obtain o2 i2 where r: "assign_holes outers holes = (o2, i2)" by fastforce
    have eq: "outers' = o2" "inners' = Some (hole\<lparr>outer := Some j\<rparr>) # i2"
      using Cons.prems(1) Some r by auto
    have ih: "(\<forall>r \<in> set o2. is_outer r) \<and> (\<forall>h \<in> set i2. is_hole (length o2) h)
        \<and> length outers \<le> length o2"
      by (rule Cons.IH[OF r]) (use Cons.prems in auto)
    have "j < length outers" using find_outer_bound[OF Some] by simp
    then have "is_hole (length o2) (Some (hole\<lparr>outer := Some j\<rparr>))"
      using ih Cons.prems(3) by (simp add: is_hole_def consistent_def)
    then show ?thesis using eq ih by auto
  qed
qed

lemma push_holes_inv:
  "\<forall>h \<in> set inners. is_hole (length polys) h \<Longrightarrow> \<forall>p \<in> set polys. winding_ok p \<Longrightarrow>
   \<exists>polys'. push_holes inners polys = Inr polys' \<and> length polys' = length polys
      \<and> (\<forall>p \<in> set polys'. winding_ok p)"
proof (induction inners polys rule: push_holes.induct)
  case (1 polys)
  then show ?case by simp
next
  case (2 hs polys)
  then show ?case by simp
next
  case (3 h hs polys)
  from "3.prems"(1) obtain j where j: "outer h = Some j" "j < length polys"
    and h: "consistent h" "0 < area h"
    by (auto simp: is_hole_def split: option.splits)
  let ?polys = "polys[j := polys ! j @ [rev (ring h)]]"
  have w: "winding_ok (polys ! j)" using "3.prems"(2) j by simp
  have "signed_area (rev (ring h)) < 0" using h by (simp add: signed_area_rev consistent_def)
  then have "winding_ok (polys ! j @ [rev (ring h)])" using w
    by (auto simp: winding_ok_def)
  then have a: "\<forall>p \<in> set ?polys. winding_ok p" using "3.prems"(2)
    by (auto dest!: set_update_subset_insert[THEN subsetD])
  have b: "\<forall>h \<in> set hs. is_hole (length ?polys) h" using "3.prems"(1) by simp
  from "3.IH"[OF j b a] show ?case using j by simp
qed



subsection \<open>The checks of the rings\<close>



lemma ringClosed_Inl: "ringClosed r = Inl e \<Longrightarrow> e = RingTooShort \<and> length r \<le> 3"
  by (auto simp: ringClosed_def Let_def split: if_splits)

lemma ringArea_Inr: "ringArea r = Inr a \<Longrightarrow> a = signed_area r \<and> signed_area r \<noteq> 0"
  by (auto simp: ringArea_def signed_area_def Let_def split: if_splits)

lemma ringArea_Inl: "ringArea r = Inl e \<Longrightarrow> e = RingAreaIs0 \<and> signed_area r = 0"
  by (auto simp: ringArea_def signed_area_def Let_def split: if_splits)


lemma check_rings_Inl:
  "check_rings ls = Inl e \<Longrightarrow> e \<in> {RingTooShort, RingNotClosed, RingAreaIs0}"
proof (induction ls)
  case Nil
  then show ?case by simp
next
  case (Cons l ls)
  then show ?case
    by (auto split: sum.splits if_splits dest: ringClosed_Inl ringArea_Inl ringArea_Inr)
qed


lemma polygon_geometry_Inl:
  assumes "polygon_geometry lines = Inl e"
  shows "e \<in> {RingTooShort, RingNotClosed, RingAreaIs0, NoOuterRings}"
proof (cases "check_rings lines")
  case (Inl e')
  then have "e = e'" using assms by (simp add: polygon_geometry_def)
  then show ?thesis using check_rings_Inl[OF Inl] by auto
next
  case (Inr rings0)
  define rings where "rings = sort_key area rings0"
  define outers where "outers = filter (\<lambda>r. area r < 0) rings"
  define inners where "inners = filter (\<lambda>r. area r > 0) rings"
  obtain outers' inners' where a: "assign_holes outers inners = (outers', inners')" by fastforce
  have cons: "\<forall>r \<in> set rings. consistent r" using check_rings_consistent[OF Inr] by (simp add: rings_def)
  have inv: "(\<forall>r \<in> set outers'. is_outer r) \<and> (\<forall>h \<in> set inners'. is_hole (length outers') h)
     \<and> length outers \<le> length outers'"
    by (rule assign_holes_inv[OF a]) (use cons in \<open>auto simp: outers_def inners_def is_outer_def\<close>)
  let ?polys = "map (\<lambda>r. [rev (ring r)]) outers'"
  have w0: "\<forall>p \<in> set ?polys. winding_ok p" using inv
    by (auto simp: winding_ok_def is_outer_def consistent_def signed_area_rev)
  have "\<forall>h \<in> set inners'. is_hole (length ?polys) h" using inv by simp
  from push_holes_inv[OF this w0] obtain polys' where
    p: "push_holes inners' ?polys = Inr polys'" by auto
  show ?thesis using assms Inr a p
    by (simp add: polygon_geometry_def Let_def rings_def[symmetric] outers_def[symmetric]
        inners_def[symmetric] split: if_splits)
qed







subsection \<open>Examples, evaluated\<close>








lemma land_lake_rock_winding:
  "winding_ok [rev land, rev lake]" "winding_ok [rock]"
  by code_simp+

lemma pond_geometry:
  "polygon_geometry [land, lake, island, pond] =
     Inr (MultiPolygon [[rev land, rev pond, rev lake], [rev island]])"
  by code_simp

lemma pond_inside:
  "list_all (\<lambda>p. odd (insideRing p island) \<and> odd (insideRing p land)) pond"
  "\<bar>signed_area island\<bar> < \<bar>signed_area land\<bar>" "signed_area pond < \<bar>signed_area island\<bar>"
  by code_simp+

subsection \<open>Winding order of the output\<close>




subsection \<open>Which outer a hole goes to\<close>

text \<open>
  C3. The claim is that a hole inside several outers goes to the smallest of them. The
  rings are sorted by ascending signed area and the outers have negative areas, so the
  outers are scanned from the largest to the smallest, and the hole goes to the largest
  outer that contains it. Here the pond lies inside the island and inside the land, the
  island is the smaller of the two, and the pond becomes a hole of the land.
\<close>

theorem pond_assigned_to_land:
  "polygon_geometry [land, lake, island, pond] =
     Inr (MultiPolygon [[rev land, rev pond, rev lake], [rev island]])
   \<and> list_all (\<lambda>p. odd (insideRing p island) \<and> odd (insideRing p land)) pond
   \<and> \<bar>signed_area island\<bar> < \<bar>signed_area land\<bar>
   \<and> signed_area pond < \<bar>signed_area island\<bar>"
  using pond_geometry pond_inside by simp

subsection \<open>Unclosed rings and rings without area\<close>




subsection \<open>Rings of three points or fewer\<close>




section \<open>The transformers: properties\<close>

subsection \<open>Reading through a window\<close>

lemma window_length:
  "window buf off buf' off' extra \<Longrightarrow>
   int (length buf') - off' = int (length buf) - off + int (length extra)"
proof -
  assume w: "window buf off buf' off' extra"
  then have "length (drop (nat off') buf') = length (drop (nat off) buf @ extra)"
    by (simp add: window_def)
  then show ?thesis using w by (simp add: window_def) linarith
qed

lemma window_nth:
  assumes "window buf off buf' off' extra" "0 \<le> k" "k < int (length buf) - off"
  shows "buf' ! nat (off' + k) = buf ! nat (off + k)"
proof -
  have le: "nat off \<le> length buf" "nat off' \<le> length buf'"
    using assms(1) by (auto simp: window_def)
  have k: "nat k < length (drop (nat off) buf)" using assms by (simp add: window_def) linarith
  have "buf ! nat (off + k) = drop (nat off) buf ! nat k"
    using le assms by (simp add: window_def nat_add_distrib)
  also have "\<dots> = (drop (nat off) buf @ extra) ! nat k" using k by (simp add: nth_append)
  also have "\<dots> = drop (nat off') buf' ! nat k" using assms(1) by (simp add: window_def)
  also have "\<dots> = buf' ! (nat off' + nat k)" using le(2) by simp
  also have "\<dots> = buf' ! nat (off' + k)"
    using assms by (simp add: window_def nat_add_distrib)
  finally show ?thesis by simp
qed

lemma window_in_range:
  assumes "window buf off buf' off' extra" "0 \<le> k" "k + int n \<le> int (length buf) - off"
  shows "in_range buf (off + k) n" "in_range buf' (off' + k) n"
  using assms window_length[OF assms(1)] by (auto simp: in_range_def window_def)

lemma window_byte_at:
  assumes "window buf off buf' off' extra" "0 \<le> k" "k < int (length buf) - off"
  shows "byte_at buf' (off' + k) = byte_at buf (off + k)"
  using window_nth[OF assms] by (simp add: byte_at_def)

lemma window_getInt32BE:
  assumes "window buf off buf' off' extra" "0 \<le> k" "k + 4 \<le> int (length buf) - off"
  shows "getInt32BE buf' (off' + k) = getInt32BE buf (off + k)"
proof -
  have r: "in_range buf (off + k) 4" "in_range buf' (off' + k) 4"
    using window_in_range[OF assms(1,2), of 4] assms(3) by auto
  have b: "byte_at buf' (off' + k + j) = byte_at buf (off + k + j)" if "0 \<le> j" "j < 4" for j
    using window_byte_at[OF assms(1), of "k + j"] assms that by (simp add: add.assoc)
  show ?thesis using r b[of 0] b[of 1] b[of 2] b[of 3] by (simp add: getInt32BE_def)
qed

lemma window_take:
  assumes "window buf off buf' off' extra" "int n \<le> int (length buf) - off"
  shows "take n (drop (nat off') buf') = take n (drop (nat off) buf)"
proof -
  have "n \<le> length (drop (nat off) buf)" using assms by (simp add: window_def) linarith
  then have "take n (drop (nat off) buf @ extra) = take n (drop (nat off) buf)" by simp
  then show ?thesis using assms(1) by (simp add: window_def)
qed

lemma window_self:
  "0 \<le> off \<Longrightarrow> off \<le> int (length buf) \<Longrightarrow> window buf off (drop (nat off) buf @ extra) 0 extra"
  by (simp add: window_def)

lemma window_shift:
  assumes "window buf off buf' off' extra" "0 \<le> d" "off + d \<le> int (length buf)"
  shows "window buf (off + d) buf' (off' + d) extra"
proof -
  have l: "int (length buf') - off' = int (length buf) - off + int (length extra)"
    by (rule window_length[OF assms(1)])
  have nn: "0 \<le> off" "0 \<le> off'" using assms(1) by (auto simp: window_def)
  have w: "drop (nat off') buf' = drop (nat off) buf @ extra" using assms(1) by (simp add: window_def)
  have d: "nat d \<le> length (drop (nat off) buf)" using assms(2,3) nn by simp
  have "drop (nat (off' + d)) buf' = drop (nat d) (drop (nat off') buf')"
    using nn assms(2) by (simp add: nat_add_distrib add.commute)
  also have "\<dots> = drop (nat d) (drop (nat off) buf) @ extra"
    unfolding w using d by simp
  also have "drop (nat d) (drop (nat off) buf) = drop (nat (off + d)) buf"
    using nn assms(2) by (simp add: nat_add_distrib add.commute)
  finally show ?thesis using assms l nn by (simp add: window_def)
qed

subsection \<open>\<open>SHPTransform\<close>: one pass of the loop\<close>

lemma shp_loop_Return:
  "shp_body hdr dec st = Return st' \<Longrightarrow> shp_loop hdr dec st = Some (st', None)"
  by (subst shp_loop.simps) simp

lemma shp_loop_Throw:
  "shp_body hdr dec st = Throw st' e \<Longrightarrow> shp_loop hdr dec st = Some (st', Some e)"
  by (subst shp_loop.simps) simp

lemma shp_loop_Continue:
  "shp_body hdr dec st = Continue st' \<Longrightarrow> shp_loop hdr dec st = shp_loop hdr dec st'"
  by (subst shp_loop.simps) simp

lemma relocate_simps [simp]:
  "buffer (relocate buf' d st) = Some buf'"
  "offset (relocate buf' d st) = offset st + d"
  "needed (relocate buf' d st) = needed st"
  "status (relocate buf' d st) = status st"
  "queue (relocate buf' d st) = queue st"
  by (simp_all add: relocate_def)

lemma shp_relocate_simps [simp]:
  "filesize (relocate buf' d st) = filesize st"
  "bbox_slot (relocate buf' d st) = bbox_slot st"
  by (simp_all add: relocate_def)

text \<open>Status 0: the header.\<close>

lemma shp_step_0:
  assumes buf: "buffer st = Some buf" and s: "status st = 0" "offset st = 0" "needed st = 100"
    and ok: "shp_ok hdr dec st (buf @ extra @ fut)"
    and enough: "100 \<le> length buf"
  shows "shp_body hdr dec (relocate (buf @ extra) 0 st)
         = map_outcome (relocate (buf @ extra) 0) (shp_body hdr dec st)"
proof -
  have "hdr_local hdr (take 100 buf)" using ok s enough by (simp add: shp_ok_def shp_valid_def)
  then have h: "hdr (take 100 buf @ post) = hdr (take 100 buf)" for post
    by (simp add: hdr_local_def)
  have "hdr buf = hdr (take 100 buf)" using h[of "drop 100 buf"] by simp
  moreover have "hdr (buf @ extra) = hdr (take 100 buf)"
    using h[of "drop 100 buf @ extra"] by (simp flip: append_assoc)
  ultimately have e: "hdr (buf @ extra) = hdr buf" by simp
  show ?thesis
    using buf s enough e
    by (simp add: shp_body_def relocate_def split: sum.splits prod.splits)
qed

text \<open>Status 1: the header of a record.\<close>

lemma shp_step_1:
  assumes buf: "buffer st = Some buf" and s: "status st = 1" "needed st = 8"
    and win: "window buf (offset st) buf' (offset st + d) extra"
    and enough: "8 \<le> int (length buf) - offset st"
  shows "shp_body hdr dec (relocate buf' d st) = map_outcome (relocate buf' d) (shp_body hdr dec st)"
proof -
  have g: "getInt32BE buf' (offset st + d + 4) = getInt32BE buf (offset st + 4)"
    using window_getInt32BE[OF win, of 4] enough by simp
  have l: "8 \<le> int (length buf') - (offset st + d)"
    using window_length[OF win] enough by simp
  show ?thesis
    using buf s enough g l
    by (simp add: shp_body_def relocate_def split: sum.splits)
qed

text \<open>Status 2: a record.\<close>

lemma rec_local_window:
  assumes "rec_local dec (take n (drop (nat off) buf))" "0 \<le> off" "int n \<le> int (length buf) - off"
  shows "dec buf off = dec (take n (drop (nat off) buf)) 0"
proof -
  have "buf = take (nat off) buf @ take n (drop (nat off) buf) @ drop n (drop (nat off) buf)"
    by (metis append_take_drop_id)
  moreover have "int (length (take (nat off) buf)) = off" using assms(2,3) by simp
  ultimately show ?thesis using assms(1) unfolding rec_local_def by metis
qed

lemma shp_step_2:
  assumes buf: "buffer st = Some buf" and s: "status st = 2"
    and ok: "shp_ok hdr dec st (drop (nat (offset st)) buf @ extra @ fut)"
    and win: "window buf (offset st) buf' (offset st + d) extra"
    and enough: "needed st \<le> int (length buf) - offset st"
  shows "shp_body hdr dec (relocate buf' d st) = map_outcome (relocate buf' d) (shp_body hdr dec st)"
proof -
  let ?n = "nat (needed st)"
  have nn: "0 \<le> needed st" using ok s by (simp add: shp_ok_def)
  have o: "0 \<le> offset st" "0 \<le> offset st + d" using win by (auto simp: window_def)
  define r where "r = drop (nat (offset st)) buf @ extra @ fut"
  have len: "needed st \<le> int (length r)"
    using enough o by (simp add: r_def)
  have tk: "take ?n r = take ?n (drop (nat (offset st)) buf)"
    using enough o nn by (simp add: r_def)
  have "rec_local dec (take ?n r)"
    using ok s len unfolding r_def[symmetric] by (simp add: shp_ok_def)
  then have loc: "rec_local dec (take ?n (drop (nat (offset st)) buf))"
    by (simp only: tk)
  have l: "needed st \<le> int (length buf') - (offset st + d)"
    using window_length[OF win] enough by simp
  have t: "take ?n (drop (nat (offset st + d)) buf') = take ?n (drop (nat (offset st)) buf)"
    using window_take[OF win, of ?n] enough nn by simp
  have "dec buf (offset st) = dec (take ?n (drop (nat (offset st)) buf)) 0"
    using rec_local_window[OF loc o(1)] enough nn by simp
  moreover have "dec buf' (offset st + d) = dec (take ?n (drop (nat (offset st)) buf)) 0"
    using rec_local_window[of dec ?n "offset st + d" buf'] loc t o(2) l nn by simp
  ultimately have e: "dec buf' (offset st + d) = dec buf (offset st)" by simp
  show ?thesis
    using buf s enough e l
    by (simp add: shp_body_def relocate_def split: sum.splits)
qed

lemma shp_body_Return:
  "buffer st = Some buf \<Longrightarrow> int (length buf) - offset st < needed st \<Longrightarrow>
   shp_body hdr dec st = Return st"
  by (simp add: shp_body_def)

lemma shp_records_ok_step:
  assumes "shp_records_ok dec bs" "8 \<le> length bs" "getInt32BE bs 4 = Inr len"
  shows "0 \<le> len \<and> (if int (length bs) - 8 < len * 2 then True
                else rec_local dec (take (nat (len * 2)) (drop 8 bs))
                     \<and> shp_records_ok dec (drop (8 + nat (len * 2)) bs))"
  using assms by (subst (asm) shp_records_ok.simps) simp

lemma shp_body_Continue:
  assumes inv: "shp_inv st" and buf: "buffer st = Some buf"
    and ok: "shp_ok hdr dec st (drop (nat (offset st)) buf @ fut)"
    and enough: "needed st \<le> int (length buf) - offset st"
    and c: "shp_body hdr dec st = Continue st2"
  shows "shp_inv st2 \<and> buffer st2 = Some buf
         \<and> shp_ok hdr dec st2 (drop (nat (offset st2)) buf @ fut)
         \<and> offset st \<le> offset st2 \<and> offset st2 \<le> int (length buf)
         \<and> shp_measure st2 < shp_measure st \<and> status st2 \<noteq> 0"
proof -
  have o: "0 \<le> offset st" "offset st \<le> int (length buf)"
    using inv buf by (auto simp: shp_inv_def)
  consider (h) "status st = 0" "offset st = 0" "needed st = 100"
    | (r) "status st = 1" "needed st = 8" | (b) "status st = 2"
    using inv by (auto simp: shp_inv_def)
  then show ?thesis
  proof cases
    case h
    from c h buf enough obtain bb fs where
      st2: "st2 = st\<lparr>bbox_slot := Some bb, filesize := fs - 100, status := 1,
                     offset := 100, needed := 8\<rparr>"
      by (auto simp: shp_body_def split: sum.splits)
    have "shp_records_ok dec (drop 100 (buf @ fut))"
      using ok h enough by (simp add: shp_ok_def shp_valid_def)
    then show ?thesis using st2 h buf enough
      by (simp add: shp_inv_def shp_ok_def shp_measure_def)
  next
    case r
    from c r buf enough obtain len where
      g: "getInt32BE buf (offset st + 4) = Inr len" and
      st2: "st2 = st\<lparr>needed := len * 2, offset := offset st + 8,
                     filesize := filesize st - 8, status := 2\<rparr>"
      by (auto simp: shp_body_def split: sum.splits)
    define bs where "bs = drop (nat (offset st)) buf @ fut"
    have w: "window buf (offset st) bs 0 fut" unfolding bs_def by (rule window_self[OF o])
    have g': "getInt32BE bs 4 = Inr len"
      using window_getInt32BE[OF w, of 4] enough r g by simp
    have l8: "8 \<le> length bs" using enough r o by (simp add: bs_def)
    have d8: "drop 8 bs = drop (nat (offset st + 8)) buf @ fut"
      using enough r o by (simp add: bs_def nat_add_distrib add.commute)
    have "shp_records_ok dec bs" using ok r by (simp add: shp_ok_def bs_def)
    from shp_records_ok_step[OF this l8 g']
    have k: "0 \<le> len" "int (length bs) - 8 < len * 2 \<or>
        rec_local dec (take (nat (len * 2)) (drop 8 bs))
        \<and> shp_records_ok dec (drop (nat (len * 2)) (drop 8 bs))"
      by (auto split: if_splits simp: add.commute)
    have l: "int (length (drop 8 bs)) = int (length bs) - 8" using l8 by simp
    have "shp_ok hdr dec st2 (drop 8 bs)"
      using k l st2 by (auto simp: shp_ok_def)
    then show ?thesis using st2 r buf enough o d8
      by (simp add: shp_inv_def shp_measure_def)
  next
    case b
    from c b buf enough obtain ft where
      st2: "st2 = st\<lparr>queue := queue st @ [ft], offset := offset st + needed st,
                     filesize := filesize st - needed st, needed := 8, status := 1\<rparr>"
      by (auto simp: shp_body_def split: sum.splits)
    define bs where "bs = drop (nat (offset st)) buf @ fut"
    have nn: "0 \<le> needed st" using ok b by (simp add: shp_ok_def)
    have len: "needed st \<le> int (length bs)" using enough o by (simp add: bs_def)
    have dn: "drop (nat (needed st)) bs = drop (nat (offset st + needed st)) buf @ fut"
      using enough o nn by (simp add: bs_def nat_add_distrib add.commute)
    have "shp_records_ok dec (drop (nat (needed st)) bs)"
      using ok b len unfolding bs_def[symmetric] by (simp add: shp_ok_def)
    then have "shp_ok hdr dec st2 (drop (nat (offset st + needed st)) buf @ fut)"
      using st2 dn by (simp add: shp_ok_def)
    then show ?thesis using st2 b buf enough o nn
      by (simp add: shp_inv_def shp_measure_def)
  qed
qed

lemma shp_body_relocate:
  assumes inv: "shp_inv st" and buf: "buffer st = Some buf"
    and ok: "shp_ok hdr dec st (drop (nat (offset st)) buf @ extra @ fut)"
    and enough: "needed st \<le> int (length buf) - offset st"
    and win: "window buf (offset st) buf' (offset st + d) extra"
    and d0: "status st = 0 \<longrightarrow> d = 0"
  shows "shp_body hdr dec (relocate buf' d st) = map_outcome (relocate buf' d) (shp_body hdr dec st)"
proof -
  consider (h) "status st = 0" "offset st = 0" "needed st = 100"
    | (r) "status st = 1" "needed st = 8" | (b) "status st = 2"
    using inv by (auto simp: shp_inv_def)
  then show ?thesis
  proof cases
    case h
    have "buf' = buf @ extra" using win h d0 by (simp add: window_def)
    then show ?thesis using shp_step_0[OF buf h, of hdr dec extra fut] ok h enough d0 by simp
  next
    case r
    then show ?thesis using shp_step_1[OF buf r win] enough by simp
  next
    case b
    then show ?thesis using shp_step_2[OF buf b ok win enough] by simp
  qed
qed

lemma shp_body_Throw: "shp_body hdr dec st = Throw st' e \<Longrightarrow> st' = st"
  by (auto simp: shp_body_def split: option.splits if_splits sum.splits prod.splits)

lemma shp_body_enough:
  "buffer st = Some buf \<Longrightarrow> needed st \<le> int (length buf) - offset st \<Longrightarrow>
   shp_body hdr dec st \<noteq> Return st'"
  by (auto simp: shp_body_def split: option.splits if_splits sum.splits prod.splits)

subsection \<open>\<open>SHPTransform\<close>: the loop over a longer or another buffer\<close>

lemma shp_loop_master:
  assumes "shp_inv st" "buffer st = Some buf"
    "shp_ok hdr dec st (drop (nat (offset st)) buf @ extra @ fut)"
  shows "\<exists>st1 e. shp_loop hdr dec st = Some (st1, e) \<and> shp_inv st1 \<and> buffer st1 = Some buf
      \<and> offset st \<le> offset st1
      \<and> (e = None \<longrightarrow> int (length buf) - offset st1 < needed st1
            \<and> shp_ok hdr dec st1 (drop (nat (offset st1)) buf @ extra @ fut))
      \<and> (\<forall>buf' d. window buf (offset st) buf' (offset st + d) extra \<and> (status st = 0 \<longrightarrow> d = 0) \<longrightarrow>
            shp_loop hdr dec (relocate buf' d st) =
              (case e of None \<Rightarrow> shp_loop hdr dec (relocate buf' d st1)
               | Some err \<Rightarrow> Some (relocate buf' d st1, Some err)))"
  using assms
proof (induction "shp_measure st" arbitrary: st rule: less_induct)
  case less
  show ?case
  proof (cases "needed st \<le> int (length buf) - offset st")
    case False
    then have "shp_loop hdr dec st = Some (st, None)"
      using less.prems(2) by (simp add: shp_body_Return shp_loop_Return)
    then show ?thesis using less.prems False by auto
  next
    case True
    note reloc = shp_body_relocate[OF less.prems(1,2,3) True]
    show ?thesis
    proof (cases "shp_body hdr dec st")
      case (Return st')
      then show ?thesis using shp_body_enough[OF less.prems(2) True] by simp
    next
      case (Throw st' e)
      then have t: "shp_body hdr dec st = Throw st e" using shp_body_Throw by blast
      have "shp_loop hdr dec (relocate buf' d st) = Some (relocate buf' d st, Some e)"
        if "window buf (offset st) buf' (offset st + d) extra" "status st = 0 \<longrightarrow> d = 0" for buf' d
        using reloc[OF that] t by (simp add: shp_loop_Throw)
      then show ?thesis using shp_loop_Throw[OF t] less.prems by auto
    next
      case (Continue st2)
      from shp_body_Continue[OF less.prems(1,2,3) True Continue]
      have st2: "shp_inv st2" "buffer st2 = Some buf"
        "shp_ok hdr dec st2 (drop (nat (offset st2)) buf @ extra @ fut)"
        "offset st \<le> offset st2" "offset st2 \<le> int (length buf)"
        "shp_measure st2 < shp_measure st" "status st2 \<noteq> 0"
        by auto
      from less.hyps[OF st2(6) st2(1,2,3)] obtain st1 e where
        r: "shp_loop hdr dec st2 = Some (st1, e)" "shp_inv st1" "buffer st1 = Some buf"
          "offset st2 \<le> offset st1"
          "e = None \<longrightarrow> int (length buf) - offset st1 < needed st1
            \<and> shp_ok hdr dec st1 (drop (nat (offset st1)) buf @ extra @ fut)"
        and rel: "\<And>buf' d. window buf (offset st2) buf' (offset st2 + d) extra \<Longrightarrow>
            shp_loop hdr dec (relocate buf' d st2) =
              (case e of None \<Rightarrow> shp_loop hdr dec (relocate buf' d st1)
               | Some err \<Rightarrow> Some (relocate buf' d st1, Some err))"
        using st2(7) by blast
      have "shp_loop hdr dec (relocate buf' d st) =
              (case e of None \<Rightarrow> shp_loop hdr dec (relocate buf' d st1)
               | Some err \<Rightarrow> Some (relocate buf' d st1, Some err))"
        if w: "window buf (offset st) buf' (offset st + d) extra" and d0: "status st = 0 \<longrightarrow> d = 0"
        for buf' d
      proof -
        have "shp_body hdr dec (relocate buf' d st) = Continue (relocate buf' d st2)"
          using reloc[OF w d0] Continue by simp
        then have "shp_loop hdr dec (relocate buf' d st) = shp_loop hdr dec (relocate buf' d st2)"
          by (rule shp_loop_Continue)
        moreover have "window buf (offset st2) buf' (offset st2 + d) extra"
          using window_shift[OF w, of "offset st2 - offset st"] st2(4,5)
          by (simp add: algebra_simps)
        ultimately show ?thesis using rel by simp
      qed
      then show ?thesis using shp_loop_Continue[OF Continue] r st2(4) by auto
    qed
  qed
qed

lemma rest_Some: "buffer st = Some buf \<Longrightarrow> 0 \<le> offset st \<Longrightarrow> offset st \<le> int (length buf) \<Longrightarrow>
  rest st = drop (nat (offset st)) buf"
  by (simp add: rest_def buffer_slice_def Let_def min_def)

lemma shp_append_chunk:
  "shp_inv st \<Longrightarrow> append_chunk st c = st\<lparr>buffer := Some (rest st @ c), offset := 0\<rparr>"
  by (cases "buffer st") (auto simp: shp_inv_def append_chunk_def rest_def buffer_slice_def)

text \<open>Over the same bytes at another place of another buffer, the loop does the same.\<close>

lemma shp_loop_moved:
  assumes inv: "shp_inv st" and buf: "buffer st = Some buf"
    and ok: "shp_ok hdr dec st (drop (nat (offset st)) buf)"
    and res: "shp_loop hdr dec st = Some (st1, e)"
    and w: "window buf (offset st) buf' (offset st + d) []" and d0: "status st = 0 \<longrightarrow> d = 0"
  shows "shp_loop hdr dec (relocate buf' d st) = Some (relocate buf' d st1, e)"
proof -
  from shp_loop_master[OF inv buf, of hdr dec "[]" "[]"] ok res
  have st1: "buffer st1 = Some buf"
       "e = None \<longrightarrow> int (length buf) - offset st1 < needed st1"
    and rel: "shp_loop hdr dec (relocate buf' d st) =
              (case e of None \<Rightarrow> shp_loop hdr dec (relocate buf' d st1)
               | Some err \<Rightarrow> Some (relocate buf' d st1, Some err))"
    using w d0 by auto
  show ?thesis
  proof (cases e)
    case None
    have "int (length buf') - (offset st + d) = int (length buf) - offset st"
      using window_length[OF w] by simp
    then have "int (length buf') - offset (relocate buf' d st1) < needed (relocate buf' d st1)"
      using st1 None by simp
    then have "shp_loop hdr dec (relocate buf' d st1) = Some (relocate buf' d st1, None)"
      by (intro shp_loop_Return shp_body_Return) simp_all
    then show ?thesis using rel None by simp
  next
    case (Some err)
    then show ?thesis using rel by simp
  qed
qed

lemma shp_ok_relocate [simp]: "shp_ok hdr dec (relocate buf' d st) bs = shp_ok hdr dec st bs"
  by (simp add: shp_ok_def)

lemma shp_flush_relocate [simp]: "shp_flush (relocate buf' d st) = shp_flush st"
  by (simp add: shp_flush_def)

lemma shp_inv_relocate:
  "shp_inv st \<Longrightarrow> 0 \<le> offset st + d \<Longrightarrow> offset st + d \<le> int (length buf') \<Longrightarrow>
   (status st = 0 \<longrightarrow> d = 0) \<Longrightarrow> shp_inv (relocate buf' d st)"
  by (auto simp: shp_inv_def)

lemma shp_append_chunk_relocate:
  "shp_inv st \<Longrightarrow> append_chunk st c = relocate (rest st @ c) (- offset st) st"
  by (simp add: shp_append_chunk relocate_def)

lemma shp_inv_rest:
  "shp_inv st \<Longrightarrow> buffer st = Some buf \<Longrightarrow> rest st = drop (nat (offset st)) buf"
  by (rule rest_Some) (auto simp: shp_inv_def)

lemma shp_run_single:
  "shp_run hdr dec st [c] =
     (case shp_transform hdr dec st c of
        None \<Rightarrow> None
      | Some (st', Some e) \<Rightarrow> Some (st', Some e)
      | Some (st', None) \<Rightarrow> Some (st', shp_flush st'))"
  by (simp split: option.splits prod.splits)

text \<open>
  From a state that waits for bytes, the transformer that is given the bytes of a chunk
  stops where, and as, the loop does that finds these bytes behind its own.
\<close>

lemma shp_transform_as_loop:
  assumes inv: "shp_inv st" and buf: "buffer st = Some buf"
    and ok: "shp_ok hdr dec st (drop (nat (offset st)) buf @ c)"
  shows "\<exists>s e. shp_loop hdr dec (relocate (buf @ c) 0 st) = Some (s, e)
           \<and> shp_transform hdr dec st c = Some (relocate (rest st @ c) (- offset st) s, e)"
proof -
  let ?S = "relocate (buf @ c) 0 st"
  have o: "0 \<le> offset st" "offset st \<le> int (length buf)" using inv buf by (auto simp: shp_inv_def)
  have invS: "shp_inv ?S" using inv o by (intro shp_inv_relocate) auto
  have bS: "buffer ?S = Some (buf @ c)" by simp
  have dr: "drop (nat (offset st)) (buf @ c) = drop (nat (offset st)) buf @ c" using o by simp
  have okS: "shp_ok hdr dec ?S (drop (nat (offset ?S)) (buf @ c) @ [] @ [])"
    using ok dr by simp
  from shp_loop_master[OF invS bS okS] obtain s e where
    r: "shp_loop hdr dec ?S = Some (s, e)" by blast
  have r': "rest st @ c = drop (nat (offset st)) (buf @ c)"
    using shp_inv_rest[OF inv buf] dr by simp
  have w: "window (buf @ c) (offset ?S) (rest st @ c) (offset ?S + (- offset st)) []"
    using o by (simp add: window_def r')
  have d0: "status ?S = 0 \<longrightarrow> - offset st = 0" using inv by (auto simp: shp_inv_def)
  have okS': "shp_ok hdr dec ?S (drop (nat (offset ?S)) (buf @ c))" using okS by simp
  from shp_loop_moved[OF invS bS okS' r w d0]
  have "shp_loop hdr dec (relocate (rest st @ c) (- offset st) ?S)
        = Some (relocate (rest st @ c) (- offset st) s, e)" .
  moreover have "relocate (rest st @ c) (- offset st) ?S = append_chunk st c"
    using shp_append_chunk_relocate[OF inv] by (simp add: relocate_def)
  ultimately show ?thesis using r by (simp add: shp_transform_def)
qed

subsection \<open>\<open>SHPTransform\<close>: a run over chunks\<close>

lemma relocate_relocate [simp]:
  "relocate buf'' d' (relocate buf' d st) = relocate buf'' (d + d') st"
  by (simp add: relocate_def add.assoc)

lemma relocate_id: "buffer st = Some buf \<Longrightarrow> relocate buf 0 st = st"
  by (simp add: relocate_def)

text \<open>
  A run over a list of chunks, from a state that waits for bytes, ends as the loop does
  that finds all the bytes of the chunks behind the bytes of the state: with the same
  queue, bounding box and remaining file size, and with the same error, or with what
  \<open>flush\<close> throws.
\<close>

lemma shp_run_as_loop:
  assumes "shp_inv st" "buffer st = Some buf" "int (length buf) - offset st < needed st"
    "shp_ok hdr dec st (drop (nat (offset st)) buf @ concat chunks)"
  shows "\<exists>s e s'. shp_loop hdr dec (relocate (buf @ concat chunks) 0 st) = Some (s, e)
           \<and> shp_run hdr dec st chunks
               = Some (s', case e of Some err \<Rightarrow> Some err | None \<Rightarrow> shp_flush s)
           \<and> queue s' = queue s \<and> bbox_slot s' = bbox_slot s \<and> filesize s' = filesize s"
  using assms
proof (induction chunks arbitrary: st buf)
  case Nil
  have "shp_loop hdr dec st = Some (st, None)"
    using Nil.prems(2,3) by (intro shp_loop_Return shp_body_Return) simp_all
  then show ?case using Nil.prems(2) by (simp add: relocate_id)
next
  case (Cons c cs)
  note inv = Cons.prems(1) and buf = Cons.prems(2)
  have o: "0 \<le> offset st" "offset st \<le> int (length buf)" using inv buf by (auto simp: shp_inv_def)
  let ?A = "relocate (buf @ c) 0 st"
  let ?B1 = "rest st @ c"
  have rB: "rest st = drop (nat (offset st)) buf" by (rule shp_inv_rest[OF inv buf])
  have invA: "shp_inv ?A" using inv o by (intro shp_inv_relocate) auto
  have bA: "buffer ?A = Some (buf @ c)" by simp
  have okA: "shp_ok hdr dec ?A (drop (nat (offset ?A)) (buf @ c) @ concat cs @ [])"
    using Cons.prems(4) o by simp
  from shp_loop_master[OF invA bA okA] obtain sc ec where
    lc: "shp_loop hdr dec ?A = Some (sc, ec)" and isc: "shp_inv sc" and bsc: "buffer sc = Some (buf @ c)"
    and ge: "offset ?A \<le> offset sc"
    and nc: "ec = None \<longrightarrow> int (length (buf @ c)) - offset sc < needed sc
            \<and> shp_ok hdr dec sc (drop (nat (offset sc)) (buf @ c) @ concat cs @ [])"
    and rel: "\<And>buf' d. window (buf @ c) (offset ?A) buf' (offset ?A + d) (concat cs) \<Longrightarrow>
            (status ?A = 0 \<longrightarrow> d = 0) \<Longrightarrow>
            shp_loop hdr dec (relocate buf' d ?A) =
              (case ec of None \<Rightarrow> shp_loop hdr dec (relocate buf' d sc)
               | Some err \<Rightarrow> Some (relocate buf' d sc, Some err))"
    by blast
  have osc: "offset st \<le> offset sc" "offset sc \<le> int (length (buf @ c))" "0 \<le> offset sc"
    using isc bsc ge o by (auto simp: shp_inv_def)
  have w0: "window (buf @ c) (offset ?A) (buf @ c @ concat cs) (offset ?A + 0) (concat cs)"
    using o by (simp add: window_def)
  have whole: "shp_loop hdr dec (relocate (buf @ concat (c # cs)) 0 st) =
              (case ec of None \<Rightarrow> shp_loop hdr dec (relocate (buf @ c @ concat cs) 0 sc)
               | Some err \<Rightarrow> Some (relocate (buf @ c @ concat cs) 0 sc, Some err))"
    using rel[OF w0] by simp
  have len1: "int (length ?B1) = int (length (buf @ c)) - offset st" using o by (simp add: rB)
  have d0: "status ?A = 0 \<longrightarrow> - offset st = 0" using inv by (auto simp: shp_inv_def)
  have tr: "shp_transform hdr dec st c = Some (relocate ?B1 (- offset st) sc, ec)"
  proof -
    have ap: "append_chunk st c = relocate ?B1 (- offset st) ?A"
      using shp_append_chunk_relocate[OF inv] by simp
    have wA: "window (buf @ c) (offset ?A) ?B1 (offset ?A + (- offset st)) []"
      using o by (simp add: window_def rB)
    from shp_loop_master[OF invA bA, of hdr dec "[]" "concat cs"] okA lc
    have m: "shp_loop hdr dec (relocate ?B1 (- offset st) ?A) =
              (case ec of None \<Rightarrow> shp_loop hdr dec (relocate ?B1 (- offset st) sc)
               | Some err \<Rightarrow> Some (relocate ?B1 (- offset st) sc, Some err))"
      using wA d0 by auto
    have "shp_loop hdr dec (relocate ?B1 (- offset st) ?A)
        = Some (relocate ?B1 (- offset st) sc, ec)"
    proof (cases ec)
      case None
      have "int (length ?B1) - offset (relocate ?B1 (- offset st) sc)
                     < needed (relocate ?B1 (- offset st) sc)"
        using nc None len1 by simp
      then have "shp_body hdr dec (relocate ?B1 (- offset st) sc)
                 = Return (relocate ?B1 (- offset st) sc)"
        by (intro shp_body_Return[where buf = ?B1]) simp_all
      then have "shp_loop hdr dec (relocate ?B1 (- offset st) sc)
                 = Some (relocate ?B1 (- offset st) sc, None)"
        by (rule shp_loop_Return)
      then show ?thesis using m None by simp
    next
      case (Some err)
      then show ?thesis using m by simp
    qed
    then show ?thesis using ap by (simp add: shp_transform_def)
  qed
  show ?case
  proof (cases ec)
    case (Some err)
    then show ?thesis using whole tr by simp
  next
    case None
    let ?st1 = "relocate ?B1 (- offset st) sc"
    let ?W = "relocate (buf @ c @ concat cs) 0 sc"
    have inv1: "shp_inv ?st1"
      using isc osc len1 inv o by (intro shp_inv_relocate) (auto simp: shp_inv_def)
    have b1: "buffer ?st1 = Some ?B1" by simp
    have dr1: "drop (nat (offset ?st1)) ?B1 = drop (nat (offset sc)) (buf @ c)"
      using o osc by (simp add: rB nat_diff_distrib nat_le_iff)
    have st1: "int (length ?B1) - offset ?st1 < needed ?st1"
      using nc None len1 by simp
    have ok1: "shp_ok hdr dec ?st1 (drop (nat (offset ?st1)) ?B1 @ concat cs)"
      unfolding dr1 using nc None by simp
    from Cons.IH[OF inv1 b1 st1 ok1] obtain s e s' where
      ih: "shp_loop hdr dec (relocate (?B1 @ concat cs) 0 ?st1) = Some (s, e)"
          "shp_run hdr dec ?st1 cs
               = Some (s', case e of Some err \<Rightarrow> Some err | None \<Rightarrow> shp_flush s)"
          "queue s' = queue s" "bbox_slot s' = bbox_slot s" "filesize s' = filesize s"
      by blast
    have invW: "shp_inv ?W" using isc osc by (intro shp_inv_relocate) (auto simp: shp_inv_def)
    have bW: "buffer ?W = Some (buf @ c @ concat cs)" by simp
    have okW: "shp_ok hdr dec ?W (drop (nat (offset ?W)) (buf @ c @ concat cs) @ [] @ [])"
      using nc None osc o by simp
    from shp_loop_master[OF invW bW okW] obtain sw ew where
      lw: "shp_loop hdr dec ?W = Some (sw, ew)" by blast
    have okW': "shp_ok hdr dec ?W (drop (nat (offset ?W)) (buf @ c @ concat cs))"
      using okW by simp
    have wW: "window (buf @ c @ concat cs) (offset ?W) (?B1 @ concat cs)
                (offset ?W + (- offset st)) []"
      using o osc by (simp add: window_def rB nat_diff_distrib nat_le_iff)
    have dW: "status ?W = 0 \<longrightarrow> - offset st = 0"
      using isc osc o by (auto simp: shp_inv_def)
    from shp_loop_moved[OF invW bW okW' lw wW dW]
    have "shp_loop hdr dec (relocate (?B1 @ concat cs) 0 ?st1)
          = Some (relocate (?B1 @ concat cs) (- offset st) sw, ew)"
      by simp
    then have sw: "s = relocate (?B1 @ concat cs) (- offset st) sw" "e = ew" using ih(1) by auto
    then have "shp_flush s = shp_flush sw" by simp
    then show ?thesis using whole None lw tr ih sw by (cases ew) simp_all
  qed
qed

lemma shp_run_init:
  fixes dec :: "byte list \<Rightarrow> int \<Rightarrow> error + 'a"
  shows "shp_result (shp_run hdr dec shp_init chunks)
   = shp_result (shp_run hdr dec (shp_init\<lparr>buffer := Some []\<rparr>) chunks)"
proof (cases chunks)
  case Nil
  then show ?thesis by (simp add: shp_result_def shp_flush_def shp_init_def)
next
  case (Cons c cs)
  have "append_chunk (shp_init\<lparr>buffer := Some []\<rparr>) c = (append_chunk shp_init c :: 'a shp_state)"
    by (simp add: append_chunk_def shp_init_def buffer_slice_def)
  then show ?thesis using Cons by (simp add: shp_transform_def)
qed

lemma shp_run_whole:
  fixes dec :: "byte list \<Rightarrow> int \<Rightarrow> error + 'a"
  assumes "shp_valid hdr dec (concat chunks)"
  shows "\<exists>s e. shp_loop hdr dec (shp_init\<lparr>buffer := Some (concat chunks)\<rparr>) = Some (s, e)
           \<and> shp_result (shp_run hdr dec shp_init chunks)
               = Some (queue s, bbox_slot s, case e of Some err \<Rightarrow> Some err | None \<Rightarrow> shp_flush s)"
proof -
  let ?st = "shp_init\<lparr>buffer := Some []\<rparr> :: 'a shp_state"
  have inv: "shp_inv ?st" by (simp add: shp_inv_def shp_init_def)
  have buf: "buffer ?st = Some []" by simp
  have st: "int (length ([] :: byte list)) - offset ?st < needed ?st" by (simp add: shp_init_def)
  have ok: "shp_ok hdr dec ?st (drop (nat (offset ?st)) [] @ concat chunks)"
    using assms by (simp add: shp_ok_def shp_init_def)
  from shp_run_as_loop[OF inv buf st ok] obtain s e s' where
    r: "shp_loop hdr dec (relocate ([] @ concat chunks) 0 ?st) = Some (s, e)"
       "shp_run hdr dec ?st chunks
               = Some (s', case e of Some err \<Rightarrow> Some err | None \<Rightarrow> shp_flush s)"
       "queue s' = queue s" "bbox_slot s' = bbox_slot s"
    by blast
  have i: "relocate ([] @ concat chunks) 0 ?st = shp_init\<lparr>buffer := Some (concat chunks)\<rparr>"
    by (simp add: relocate_def shp_init_def)
  have "shp_result (shp_run hdr dec shp_init chunks) = shp_result (shp_run hdr dec ?st chunks)"
    by (rule shp_run_init)
  also have "\<dots> = Some (queue s, bbox_slot s, case e of Some err \<Rightarrow> Some err | None \<Rightarrow> shp_flush s)"
    using r(2,3,4) by (simp add: shp_result_def)
  finally have res: "shp_result (shp_run hdr dec shp_init chunks)
      = Some (queue s, bbox_slot s, case e of Some err \<Rightarrow> Some err | None \<Rightarrow> shp_flush s)" .
  have "shp_loop hdr dec (shp_init\<lparr>buffer := Some (concat chunks)\<rparr>) = Some (s, e)"
    using r(1) unfolding i .
  then show ?thesis using res by blast
qed

lemma shp_chunking:
  fixes dec :: "byte list \<Rightarrow> int \<Rightarrow> error + 'a"
  assumes "shp_valid hdr dec (concat chunks)" "concat chunks' = concat chunks"
  shows "shp_run hdr dec shp_init chunks \<noteq> None
         \<and> shp_result (shp_run hdr dec shp_init chunks') = shp_result (shp_run hdr dec shp_init chunks)"
proof -
  from shp_run_whole[OF assms(1)] obtain s e where
    a: "shp_loop hdr dec (shp_init\<lparr>buffer := Some (concat chunks)\<rparr>) = Some (s, e)"
       "shp_result (shp_run hdr dec shp_init chunks)
               = Some (queue s, bbox_slot s, case e of Some err \<Rightarrow> Some err | None \<Rightarrow> shp_flush s)"
    by blast
  from shp_run_whole[of hdr dec chunks'] assms obtain s2 e2 where
    b: "shp_loop hdr dec (shp_init\<lparr>buffer := Some (concat chunks)\<rparr>) = Some (s2, e2)"
       "shp_result (shp_run hdr dec shp_init chunks')
               = Some (queue s2, bbox_slot s2, case e2 of Some err \<Rightarrow> Some err | None \<Rightarrow> shp_flush s2)"
    by auto
  have "s2 = s" "e2 = e" using a(1) b(1) by auto
  then show ?thesis using a(2) b(2) by (auto simp: shp_result_def)
qed


subsection \<open>\<open>DBFTransform\<close>: one pass of the loop\<close>

lemma dbf_loop_Return:
  "dbf_body decoder st = Return st' \<Longrightarrow> dbf_loop decoder st = Some (st', None)"
  by (subst dbf_loop.simps) simp

lemma dbf_loop_Throw:
  "dbf_body decoder st = Throw st' e \<Longrightarrow> dbf_loop decoder st = Some (st', Some e)"
  by (subst dbf_loop.simps) simp

lemma dbf_loop_Continue:
  "dbf_body decoder st = Continue st' \<Longrightarrow> dbf_loop decoder st = dbf_loop decoder st'"
  by (subst dbf_loop.simps) simp

lemma dbf_relocate_simps [simp]:
  "numrec (relocate buf' d st) = numrec st"
  "reclen (relocate buf' d st) = reclen st"
  "dbf_fields (relocate buf' d st) = dbf_fields st"
  by (simp_all add: relocate_def)

lemma window_getUint8:
  assumes "window buf off buf' off' extra" "0 \<le> k" "k < int (length buf) - off"
  shows "getUint8 buf' (off' + k) = getUint8 buf (off + k)"
proof -
  have r: "in_range buf (off + k) 1" "in_range buf' (off' + k) 1"
    using window_in_range[OF assms(1,2), of 1] assms(3) by auto
  show ?thesis using r window_byte_at[OF assms] by (simp add: getUint8_def)
qed

lemma window_getUint16LE:
  assumes "window buf off buf' off' extra" "0 \<le> k" "k + 2 \<le> int (length buf) - off"
  shows "getUint16LE buf' (off' + k) = getUint16LE buf (off + k)"
proof -
  have r: "in_range buf (off + k) 2" "in_range buf' (off' + k) 2"
    using window_in_range[OF assms(1,2), of 2] assms(3) by auto
  have b: "byte_at buf' (off' + k + j) = byte_at buf (off + k + j)" if "0 \<le> j" "j < 2" for j
    using window_byte_at[OF assms(1), of "k + j"] assms that by (simp add: add.assoc)
  show ?thesis using r b[of 0] b[of 1] by (simp add: getUint16LE_def)
qed

lemma window_getUint32LE:
  assumes "window buf off buf' off' extra" "0 \<le> k" "k + 4 \<le> int (length buf) - off"
  shows "getUint32LE buf' (off' + k) = getUint32LE buf (off + k)"
proof -
  have r: "in_range buf (off + k) 4" "in_range buf' (off' + k) 4"
    using window_in_range[OF assms(1,2), of 4] assms(3) by auto
  have b: "byte_at buf' (off' + k + j) = byte_at buf (off + k + j)" if "0 \<le> j" "j < 4" for j
    using window_byte_at[OF assms(1), of "k + j"] assms that by (simp add: add.assoc)
  show ?thesis using r b[of 0] b[of 1] b[of 2] b[of 3] by (simp add: getUint32LE_def)
qed

lemma window_view_bytes:
  assumes "window buf off buf' off' extra" "0 \<le> k" "0 \<le> n" "k + n \<le> int (length buf) - off"
  shows "\<exists>v v'. DataView buf (off + k) n = Inr v \<and> DataView buf' (off' + k) n = Inr v'
           \<and> view_bytes v' = view_bytes v"
proof -
  have l: "int (length buf') - off' = int (length buf) - off + int (length extra)"
    by (rule window_length[OF assms(1)])
  have o: "0 \<le> off" "0 \<le> off'" using assms(1) by (auto simp: window_def)
  have w: "window buf (off + k) buf' (off' + k) extra"
    using window_shift[OF assms(1,2)] assms(3,4) by simp
  have "take (nat n) (drop (nat (off' + k)) buf') = take (nat n) (drop (nat (off + k)) buf)"
    using window_take[OF w, of "nat n"] assms by simp
  then show ?thesis using assms o l by (simp add: DataView_def view_bytes_def)
qed

lemma dbfHeader_append:
  assumes "32 \<le> length buf"
  shows "dbfHeader (buf @ extra) = dbfHeader buf"
proof -
  have w: "window buf 0 (buf @ extra) 0 extra" by (simp add: window_def)
  have ne: "buf \<noteq> []" using assms by auto
  have a: "getUint8 (buf @ extra) 0 = getUint8 buf 0"
    using window_getUint8[OF w, of 0] ne by simp
  have b: "getUint32LE (buf @ extra) 4 = getUint32LE buf 4"
    using window_getUint32LE[OF w, of 4] assms by simp
  have c: "getUint16LE (buf @ extra) 10 = getUint16LE buf 10"
    using window_getUint16LE[OF w, of 10] assms by simp
  have d: "getUint8 (buf @ extra) 15 = getUint8 buf 15"
    using window_getUint8[OF w, of 15] assms by simp
  show ?thesis unfolding dbfHeader_def a b c d by (rule refl)
qed

lemma dbfField_window:
  assumes w: "window buf off buf' off' extra" and "32 \<le> int (length buf) - off"
  shows "dbfField buf' off' decoder = dbfField buf off decoder"
proof -
  have a: "getUint8 buf' off' = getUint8 buf off"
    using window_getUint8[OF w, of 0] assms by simp
  have b: "getUint8 buf' (off' + 11) = getUint8 buf (off + 11)"
    using window_getUint8[OF w, of 11] assms by simp
  have c: "getUint8 buf' (off' + 16) = getUint8 buf (off + 16)"
    using window_getUint8[OF w, of 16] assms by simp
  obtain v v' where v: "DataView buf off 11 = Inr v" "DataView buf' off' 11 = Inr v'"
    "view_bytes v' = view_bytes v"
    using window_view_bytes[OF w, of 0 11] assms by auto
  show ?thesis using a b c v by (auto simp: dbfField_def ebind_def split: sum.splits)
qed

lemma dbf_columns_window:
  assumes w: "window buf off buf' off' extra"
  shows "0 \<le> pos \<Longrightarrow> list_all (\<lambda>f. 0 \<le> size f) fs \<Longrightarrow>
     pos + 1 + sum_list (map size fs) \<le> int (length buf) - off \<Longrightarrow>
     dbf_columns (buf', nat off', n') decoder fs pos row
     = dbf_columns (buf, nat off, n) decoder fs pos row"
proof (induction fs arbitrary: pos row)
  case Nil
  then show ?case by simp
next
  case (Cons f fs)
  have o: "0 \<le> off" "0 \<le> off'" using w by (auto simp: window_def)
  have s: "0 \<le> size f" "0 \<le> sum_list (map size fs)"
    using Cons.prems(2) by (auto simp: list_all_iff intro!: sum_list_nonneg)
  obtain v v' where v: "DataView buf (off + (pos + 1)) (size f) = Inr v"
    "DataView buf' (off' + (pos + 1)) (size f) = Inr v'" "view_bytes v' = view_bytes v"
    using window_view_bytes[OF w, of "pos + 1" "size f"] Cons.prems s by auto
  have fv: "field_value decoder v' (type f) = field_value decoder v (type f)"
    using v(3) by (simp add: field_value_def)
  have ih: "dbf_columns (buf', nat off', n') decoder fs (pos + size f) r
          = dbf_columns (buf, nat off, n) decoder fs (pos + size f) r" for r
    using Cons.prems s by (intro Cons.IH) auto
  have p: "int (nat off) + pos + 1 = off + (pos + 1)" "int (nat off') + pos + 1 = off' + (pos + 1)"
    using o by simp_all
  show ?case unfolding dbf_columns.simps prod.case p v using fv ih
    by (simp add: ebind_def split: sum.splits)
qed

lemma dbf_body_Return:
  "buffer st = Some buf \<Longrightarrow> int (length buf) - offset st < needed st \<Longrightarrow>
   dbf_body decoder st = Return st"
  by (simp add: dbf_body_def)

lemma dbf_body_Throw: "dbf_inv st \<Longrightarrow> dbf_body decoder st = Throw st' e \<Longrightarrow> st' = st"
  by (auto simp: dbf_body_def dbf_inv_def split: option.splits if_splits sum.splits prod.splits)

lemma dbf_body_enough:
  "buffer st = Some buf \<Longrightarrow> needed st \<le> int (length buf) - offset st \<Longrightarrow>
   dbf_body decoder st \<noteq> Return st'"
  by (auto simp: dbf_body_def split: option.splits if_splits sum.splits prod.splits)

lemma dbf_step_0:
  assumes buf: "buffer st = Some buf" and s: "status st = 0" "offset st = 0" "needed st = 32"
    and enough: "32 \<le> length buf"
  shows "dbf_body decoder (relocate (buf @ extra) 0 st)
         = map_outcome (relocate (buf @ extra) 0) (dbf_body decoder st)"
  using buf s enough dbfHeader_append[OF enough, of extra]
  by (simp add: dbf_body_def relocate_def split: sum.splits prod.splits)

lemma dbf_step_1:
  assumes buf: "buffer st = Some buf" and s: "status st = 1" "needed st = 32"
    and win: "window buf (offset st) buf' (offset st + d) extra"
    and enough: "32 \<le> int (length buf) - offset st"
  shows "dbf_body decoder (relocate buf' d st) = map_outcome (relocate buf' d) (dbf_body decoder st)"
proof -
  have g: "dbfField buf' (offset st + d) decoder = dbfField buf (offset st) decoder"
    by (rule dbfField_window[OF win enough])
  have l: "32 \<le> int (length buf') - (offset st + d)"
    using window_length[OF win] enough by simp
  show ?thesis
    using buf s enough g l
    by (simp add: dbf_body_def relocate_def split: sum.splits option.splits)
qed

lemma dbf_step_2:
  assumes buf: "buffer st = Some buf" and s: "status st = 2" "needed st = reclen st"
    and fit: "1 + sum_list (map size (dbf_fields st)) \<le> reclen st"
    and nn: "list_all (\<lambda>f. 0 \<le> size f) (dbf_fields st)"
    and win: "window buf (offset st) buf' (offset st + d) extra"
    and enough: "needed st \<le> int (length buf) - offset st"
  shows "dbf_body decoder (relocate buf' d st) = map_outcome (relocate buf' d) (dbf_body decoder st)"
proof -
  have s0: "0 \<le> sum_list (map size (dbf_fields st))"
    using nn by (auto simp: list_all_iff intro!: sum_list_nonneg)
  then have r0: "0 \<le> reclen st" using fit by simp
  have o: "0 \<le> offset st" "0 \<le> offset st + d" "offset st \<le> int (length buf)"
    "offset st + d \<le> int (length buf')"
    using win by (auto simp: window_def)
  have l: "needed st \<le> int (length buf') - (offset st + d)"
    using window_length[OF win] enough by simp
  have v: "DataView buf (offset st) (reclen st) = Inr (buf, nat (offset st), nat (reclen st))"
    "DataView buf' (offset st + d) (reclen st) = Inr (buf', nat (offset st + d), nat (reclen st))"
    using o s enough l r0 by (simp_all add: DataView_def)
  have t: "take (nat (reclen st)) (drop (nat (offset st + d)) buf')
         = take (nat (reclen st)) (drop (nat (offset st)) buf)"
    using window_take[OF win, of "nat (reclen st)"] enough s r0 by simp
  have f: "view_getUint8 (buf', nat (offset st + d), nat (reclen st)) 0
         = view_getUint8 (buf, nat (offset st), nat (reclen st)) 0"
    using t by (simp add: view_getUint8_def view_bytes_def)
  have c: "dbfRecord (buf', nat (offset st + d), nat (reclen st)) (dbf_fields st) decoder
         = dbfRecord (buf, nat (offset st), nat (reclen st)) (dbf_fields st) decoder"
    unfolding dbfRecord_def
    using dbf_columns_window[OF win, of 0 "dbf_fields st"] nn fit enough s by simp
  show ?thesis
    using buf s enough l v f c
    by (simp add: dbf_body_def relocate_def split: sum.splits)
qed

lemma dbf_body_relocate:
  assumes inv: "dbf_inv st" and buf: "buffer st = Some buf"
    and ok: "dbf_ok st (drop (nat (offset st)) buf @ extra @ fut)"
    and enough: "needed st \<le> int (length buf) - offset st"
    and win: "window buf (offset st) buf' (offset st + d) extra"
    and d0: "status st = 0 \<longrightarrow> d = 0"
  shows "dbf_body decoder (relocate buf' d st) = map_outcome (relocate buf' d) (dbf_body decoder st)"
proof -
  have nn: "list_all (\<lambda>f. 0 \<le> size f) (dbf_fields st)" using inv by (simp add: dbf_inv_def)
  consider (h) "status st = 0" "offset st = 0" "needed st = 32"
    | (r) "status st = 1" "needed st = 32" | (b) "status st = 2" "needed st = reclen st"
    using inv by (auto simp: dbf_inv_def)
  then show ?thesis
  proof cases
    case h
    have "buf' = buf @ extra" using win h d0 by (simp add: window_def)
    then show ?thesis using dbf_step_0[OF buf h, of decoder extra] h enough d0 by simp
  next
    case r
    then show ?thesis using dbf_step_1[OF buf r win] enough by simp
  next
    case b
    have "1 + sum_list (map size (dbf_fields st)) \<le> reclen st"
      using ok b by (simp add: dbf_ok_def)
    then show ?thesis using dbf_step_2[OF buf b _ nn win enough] by simp
  qed
qed

lemma byte_at_nonneg: "0 \<le> byte_at bs p"
  by (simp add: byte_at_def)

lemma dbfField_None:
  assumes "dbfField buf off decoder = Inr None" "0 \<le> off" "32 \<le> int (length buf) - off"
  shows "byte_at buf off = 13"
  using assms
  by (auto simp: dbfField_def ebind_def getUint8_def in_range_def DataView_def Let_def
      split: sum.splits if_splits)

lemma dbfField_Some:
  assumes "dbfField buf off decoder = Inr (Some f)" "0 \<le> off" "32 \<le> int (length buf) - off"
  shows "byte_at buf off \<noteq> 13 \<and> size f = byte_at buf (off + 16)"
  using assms
  by (auto simp: dbfField_def ebind_def getUint8_def in_range_def DataView_def Let_def
      split: sum.splits if_splits)

lemma dbf_widths_step:
  "32 \<le> length bs \<Longrightarrow>
   dbf_widths bs = (if byte_at bs 0 = 13 then Some []
                    else map_option (Cons (byte_at bs 16)) (dbf_widths (drop 32 bs)))"
  by (subst dbf_widths.simps) simp

lemma dbf_body_Continue:
  assumes inv: "dbf_inv st" and buf: "buffer st = Some buf"
    and ok: "dbf_ok st (drop (nat (offset st)) buf @ fut)"
    and enough: "needed st \<le> int (length buf) - offset st"
    and c: "dbf_body decoder st = Continue st2"
  shows "dbf_inv st2 \<and> buffer st2 = Some buf
         \<and> dbf_ok st2 (drop (nat (offset st2)) buf @ fut)
         \<and> offset st \<le> offset st2 \<and> offset st2 \<le> int (length buf)
         \<and> dbf_measure st2 < dbf_measure st \<and> status st2 \<noteq> 0"
proof -
  have o: "0 \<le> offset st" "offset st \<le> int (length buf)"
    using inv buf by (auto simp: dbf_inv_def)
  have nn: "list_all (\<lambda>f. 0 \<le> size f) (dbf_fields st)" using inv by (simp add: dbf_inv_def)
  then have s0: "0 \<le> sum_list (map size (dbf_fields st))"
    by (auto simp: list_all_iff intro!: sum_list_nonneg)
  consider (h) "status st = 0" "offset st = 0" "needed st = 32" "dbf_fields st = []"
    | (r) "status st = 1" "needed st = 32" | (b) "status st = 2" "needed st = reclen st"
    using inv by (auto simp: dbf_inv_def)
  then show ?thesis
  proof cases
    case h
    from c h buf enough obtain nr rl where
      hd: "dbfHeader buf = Inr (nr, rl)" and
      st2: "st2 = st\<lparr>numrec := nr, reclen := rl, offset := 32, needed := 32, status := 1\<rparr>"
      by (auto simp: dbf_body_def split: sum.splits)
    have l: "32 \<le> length buf" using enough h by simp
    have "dbfHeader (buf @ fut) = Inr (nr, rl)" using dbfHeader_append[OF l] hd by simp
    then have "case dbf_widths (drop 32 (buf @ fut)) of None \<Rightarrow> True
               | Some ws \<Rightarrow> 1 + sum_list ws \<le> rl"
      using ok h l by (simp add: dbf_ok_def dbf_valid_def)
    then have "dbf_ok st2 (drop 32 buf @ fut)"
      using st2 h l by (simp add: dbf_ok_def split: option.splits)
    then show ?thesis using st2 h buf l
      by (simp add: dbf_inv_def dbf_measure_def)
  next
    case r
    define bs where "bs = drop (nat (offset st)) buf @ fut"
    have w: "window buf (offset st) bs 0 fut" unfolding bs_def by (rule window_self[OF o])
    have l32: "32 \<le> length bs" using enough r o by (simp add: bs_def)
    have e32: "32 \<le> int (length buf) - offset st" using enough r by simp
    have b0: "byte_at bs 0 = byte_at buf (offset st)"
      using window_byte_at[OF w, of 0] e32 by simp
    have b16: "byte_at bs 16 = byte_at buf (offset st + 16)"
      using window_byte_at[OF w, of 16] e32 by simp
    have d32: "drop 32 bs = drop (nat (offset st + 32)) buf @ fut"
      using e32 o by (simp add: bs_def nat_add_distrib add.commute)
    have okb: "case dbf_widths bs of None \<Rightarrow> True
         | Some ws \<Rightarrow> 1 + sum_list (map size (dbf_fields st)) + sum_list ws \<le> reclen st"
      using ok r by (simp add: dbf_ok_def bs_def)
    from c r buf enough consider
      (fin) "dbfField buf (offset st) decoder = Inr None"
         "st2 = st\<lparr>status := 2, needed := reclen st, offset := offset st + 1\<rparr>"
      | (fld) f where "dbfField buf (offset st) decoder = Inr (Some f)"
         "st2 = st\<lparr>dbf_fields := dbf_fields st @ [f], offset := offset st + needed st\<rparr>"
      by (auto simp: dbf_body_def split: sum.splits option.splits)
    then show ?thesis
    proof cases
      case fin
      have "byte_at bs 0 = 13" using dbfField_None[OF fin(1) o(1) e32] b0 by simp
      then have "dbf_widths bs = Some []" using dbf_widths_step[OF l32] by simp
      then have "1 + sum_list (map size (dbf_fields st)) \<le> reclen st" using okb by simp
      then show ?thesis using fin(2) r buf e32 o nn
        by (simp add: dbf_inv_def dbf_ok_def dbf_measure_def)
    next
      case fld
      have f: "byte_at bs 0 \<noteq> 13" "size f = byte_at bs 16"
        using dbfField_Some[OF fld(1) o(1) e32] b0 b16 by simp_all
      have ws: "dbf_widths bs = map_option (Cons (size f)) (dbf_widths (drop 32 bs))"
        using dbf_widths_step[OF l32] f by simp
      have "dbf_ok st2 (drop 32 bs)"
        using okb ws fld(2) r by (auto simp: dbf_ok_def split: option.splits)
      moreover have "0 \<le> size f" using f(2) by (simp add: byte_at_nonneg)
      ultimately show ?thesis using fld(2) r buf e32 o nn d32
        by (simp add: dbf_inv_def dbf_measure_def)
    qed
  next
    case b
    have fit: "1 + sum_list (map size (dbf_fields st)) \<le> reclen st"
      using ok b by (simp add: dbf_ok_def)
    then have r1: "1 \<le> reclen st" using s0 by simp
    from c b buf enough have
      "st2 = st\<lparr>offset := offset st + needed st, numrec := numrec st - 1\<rparr>
       \<or> (\<exists>row. st2 = st\<lparr>queue := queue st @ [row], offset := offset st + needed st,
                          numrec := numrec st - 1\<rparr>)"
      by (auto simp: dbf_body_def split: sum.splits if_splits)
    then show ?thesis using b buf enough o nn fit r1
      by (auto simp: dbf_inv_def dbf_ok_def dbf_measure_def)
  qed
qed


subsection \<open>\<open>DBFTransform\<close>: the loop and the run over chunks\<close>

lemma dbf_loop_master:
  assumes "dbf_inv st" "buffer st = Some buf"
    "dbf_ok st (drop (nat (offset st)) buf @ extra @ fut)"
  shows "\<exists>st1 e. dbf_loop decoder st = Some (st1, e) \<and> dbf_inv st1 \<and> buffer st1 = Some buf
      \<and> offset st \<le> offset st1
      \<and> (e = None \<longrightarrow> int (length buf) - offset st1 < needed st1
            \<and> dbf_ok st1 (drop (nat (offset st1)) buf @ extra @ fut))
      \<and> (\<forall>buf' d. window buf (offset st) buf' (offset st + d) extra \<and> (status st = 0 \<longrightarrow> d = 0) \<longrightarrow>
            dbf_loop decoder (relocate buf' d st) =
              (case e of None \<Rightarrow> dbf_loop decoder (relocate buf' d st1)
               | Some err \<Rightarrow> Some (relocate buf' d st1, Some err)))"
  using assms
proof (induction "dbf_measure st" arbitrary: st rule: less_induct)
  case less
  show ?case
  proof (cases "needed st \<le> int (length buf) - offset st")
    case False
    then have "dbf_loop decoder st = Some (st, None)"
      using less.prems(2) by (simp add: dbf_body_Return dbf_loop_Return)
    then show ?thesis using less.prems False by auto
  next
    case True
    note reloc = dbf_body_relocate[OF less.prems(1,2,3) True]
    show ?thesis
    proof (cases "dbf_body decoder st")
      case (Return st')
      then show ?thesis using dbf_body_enough[OF less.prems(2) True] by simp
    next
      case (Throw st' e)
      then have t: "dbf_body decoder st = Throw st e" using dbf_body_Throw[OF less.prems(1)] by blast
      have "dbf_loop decoder (relocate buf' d st) = Some (relocate buf' d st, Some e)"
        if "window buf (offset st) buf' (offset st + d) extra" "status st = 0 \<longrightarrow> d = 0" for buf' d
        using reloc[OF that] t by (simp add: dbf_loop_Throw)
      then show ?thesis using dbf_loop_Throw[OF t] less.prems by auto
    next
      case (Continue st2)
      from dbf_body_Continue[OF less.prems(1,2,3) True Continue]
      have st2: "dbf_inv st2" "buffer st2 = Some buf"
        "dbf_ok st2 (drop (nat (offset st2)) buf @ extra @ fut)"
        "offset st \<le> offset st2" "offset st2 \<le> int (length buf)"
        "dbf_measure st2 < dbf_measure st" "status st2 \<noteq> 0"
        by auto
      from less.hyps[OF st2(6) st2(1,2,3)] obtain st1 e where
        r: "dbf_loop decoder st2 = Some (st1, e)" "dbf_inv st1" "buffer st1 = Some buf"
          "offset st2 \<le> offset st1"
          "e = None \<longrightarrow> int (length buf) - offset st1 < needed st1
            \<and> dbf_ok st1 (drop (nat (offset st1)) buf @ extra @ fut)"
        and rel: "\<And>buf' d. window buf (offset st2) buf' (offset st2 + d) extra \<Longrightarrow>
            dbf_loop decoder (relocate buf' d st2) =
              (case e of None \<Rightarrow> dbf_loop decoder (relocate buf' d st1)
               | Some err \<Rightarrow> Some (relocate buf' d st1, Some err))"
        using st2(7) by blast
      have "dbf_loop decoder (relocate buf' d st) =
              (case e of None \<Rightarrow> dbf_loop decoder (relocate buf' d st1)
               | Some err \<Rightarrow> Some (relocate buf' d st1, Some err))"
        if w: "window buf (offset st) buf' (offset st + d) extra" and d0: "status st = 0 \<longrightarrow> d = 0"
        for buf' d
      proof -
        have "dbf_body decoder (relocate buf' d st) = Continue (relocate buf' d st2)"
          using reloc[OF w d0] Continue by simp
        then have "dbf_loop decoder (relocate buf' d st) = dbf_loop decoder (relocate buf' d st2)"
          by (rule dbf_loop_Continue)
        moreover have "window buf (offset st2) buf' (offset st2 + d) extra"
          using window_shift[OF w, of "offset st2 - offset st"] st2(4,5)
          by (simp add: algebra_simps)
        ultimately show ?thesis using rel by simp
      qed
      then show ?thesis using dbf_loop_Continue[OF Continue] r st2(4) by auto
    qed
  qed
qed

lemma dbf_append_chunk:
  "dbf_inv st \<Longrightarrow> append_chunk st c = st\<lparr>buffer := Some (rest st @ c), offset := 0\<rparr>"
  by (cases "buffer st") (auto simp: dbf_inv_def append_chunk_def rest_def buffer_slice_def)

text \<open>Over the same bytes at another place of another buffer, the loop does the same.\<close>

lemma dbf_loop_moved:
  assumes inv: "dbf_inv st" and buf: "buffer st = Some buf"
    and ok: "dbf_ok st (drop (nat (offset st)) buf)"
    and res: "dbf_loop decoder st = Some (st1, e)"
    and w: "window buf (offset st) buf' (offset st + d) []" and d0: "status st = 0 \<longrightarrow> d = 0"
  shows "dbf_loop decoder (relocate buf' d st) = Some (relocate buf' d st1, e)"
proof -
  from dbf_loop_master[OF inv buf, of "[]" "[]" decoder] ok res
  have st1: "buffer st1 = Some buf"
       "e = None \<longrightarrow> int (length buf) - offset st1 < needed st1"
    and rel: "dbf_loop decoder (relocate buf' d st) =
              (case e of None \<Rightarrow> dbf_loop decoder (relocate buf' d st1)
               | Some err \<Rightarrow> Some (relocate buf' d st1, Some err))"
    using w d0 by auto
  show ?thesis
  proof (cases e)
    case None
    have "int (length buf') - (offset st + d) = int (length buf) - offset st"
      using window_length[OF w] by simp
    then have "int (length buf') - offset (relocate buf' d st1) < needed (relocate buf' d st1)"
      using st1 None by simp
    then have "dbf_loop decoder (relocate buf' d st1) = Some (relocate buf' d st1, None)"
      by (intro dbf_loop_Return dbf_body_Return) simp_all
    then show ?thesis using rel None by simp
  next
    case (Some err)
    then show ?thesis using rel by simp
  qed
qed

lemma dbf_ok_relocate [simp]: "dbf_ok (relocate buf' d st) bs = dbf_ok st bs"
  by (simp add: dbf_ok_def split: option.splits)

lemma dbf_flush_relocate [simp]: "dbf_flush (relocate buf' d st) = dbf_flush st"
  by (simp add: dbf_flush_def)

lemma dbf_inv_relocate:
  "dbf_inv st \<Longrightarrow> 0 \<le> offset st + d \<Longrightarrow> offset st + d \<le> int (length buf') \<Longrightarrow>
   (status st = 0 \<longrightarrow> d = 0) \<Longrightarrow> dbf_inv (relocate buf' d st)"
  by (auto simp: dbf_inv_def)

lemma dbf_append_chunk_relocate:
  "dbf_inv st \<Longrightarrow> append_chunk st c = relocate (rest st @ c) (- offset st) st"
  by (simp add: dbf_append_chunk relocate_def)

lemma dbf_inv_rest:
  "dbf_inv st \<Longrightarrow> buffer st = Some buf \<Longrightarrow> rest st = drop (nat (offset st)) buf"
  by (rule rest_Some) (auto simp: dbf_inv_def)

text \<open>
  A run over a list of chunks, from a state that waits for bytes, ends as the loop does
  that finds all the bytes of the chunks behind the bytes of the state: with the same
  queue and number of records to come, and with the same error, or with what
  \<open>flush\<close> throws.
\<close>

lemma dbf_run_as_loop:
  assumes "dbf_inv st" "buffer st = Some buf" "int (length buf) - offset st < needed st"
    "dbf_ok st (drop (nat (offset st)) buf @ concat chunks)"
  shows "\<exists>s e s'. dbf_loop decoder (relocate (buf @ concat chunks) 0 st) = Some (s, e)
           \<and> dbf_run decoder st chunks
               = Some (s', case e of Some err \<Rightarrow> Some err | None \<Rightarrow> dbf_flush s)
           \<and> queue s' = queue s \<and> numrec s' = numrec s"
  using assms
proof (induction chunks arbitrary: st buf)
  case Nil
  have "dbf_loop decoder st = Some (st, None)"
    using Nil.prems(2,3) by (intro dbf_loop_Return dbf_body_Return) simp_all
  then show ?case using Nil.prems(2) by (simp add: relocate_id)
next
  case (Cons c cs)
  note inv = Cons.prems(1) and buf = Cons.prems(2)
  have o: "0 \<le> offset st" "offset st \<le> int (length buf)" using inv buf by (auto simp: dbf_inv_def)
  let ?A = "relocate (buf @ c) 0 st"
  let ?B1 = "rest st @ c"
  have rB: "rest st = drop (nat (offset st)) buf" by (rule dbf_inv_rest[OF inv buf])
  have invA: "dbf_inv ?A" using inv o by (intro dbf_inv_relocate) auto
  have bA: "buffer ?A = Some (buf @ c)" by simp
  have okA: "dbf_ok ?A (drop (nat (offset ?A)) (buf @ c) @ concat cs @ [])"
    using Cons.prems(4) o by simp
  from dbf_loop_master[OF invA bA okA] obtain sc ec where
    lc: "dbf_loop decoder ?A = Some (sc, ec)" and isc: "dbf_inv sc" and bsc: "buffer sc = Some (buf @ c)"
    and ge: "offset ?A \<le> offset sc"
    and nc: "ec = None \<longrightarrow> int (length (buf @ c)) - offset sc < needed sc
            \<and> dbf_ok sc (drop (nat (offset sc)) (buf @ c) @ concat cs @ [])"
    and rel: "\<And>buf' d. window (buf @ c) (offset ?A) buf' (offset ?A + d) (concat cs) \<Longrightarrow>
            (status ?A = 0 \<longrightarrow> d = 0) \<Longrightarrow>
            dbf_loop decoder (relocate buf' d ?A) =
              (case ec of None \<Rightarrow> dbf_loop decoder (relocate buf' d sc)
               | Some err \<Rightarrow> Some (relocate buf' d sc, Some err))"
    by blast
  have osc: "offset st \<le> offset sc" "offset sc \<le> int (length (buf @ c))" "0 \<le> offset sc"
    using isc bsc ge o by (auto simp: dbf_inv_def)
  have w0: "window (buf @ c) (offset ?A) (buf @ c @ concat cs) (offset ?A + 0) (concat cs)"
    using o by (simp add: window_def)
  have whole: "dbf_loop decoder (relocate (buf @ concat (c # cs)) 0 st) =
              (case ec of None \<Rightarrow> dbf_loop decoder (relocate (buf @ c @ concat cs) 0 sc)
               | Some err \<Rightarrow> Some (relocate (buf @ c @ concat cs) 0 sc, Some err))"
    using rel[OF w0] by simp
  have len1: "int (length ?B1) = int (length (buf @ c)) - offset st" using o by (simp add: rB)
  have d0: "status ?A = 0 \<longrightarrow> - offset st = 0" using inv by (auto simp: dbf_inv_def)
  have tr: "dbf_transform decoder st c = Some (relocate ?B1 (- offset st) sc, ec)"
  proof -
    have ap: "append_chunk st c = relocate ?B1 (- offset st) ?A"
      using dbf_append_chunk_relocate[OF inv] by simp
    have wA: "window (buf @ c) (offset ?A) ?B1 (offset ?A + (- offset st)) []"
      using o by (simp add: window_def rB)
    from dbf_loop_master[OF invA bA, of "[]" "concat cs" decoder] okA lc
    have m: "dbf_loop decoder (relocate ?B1 (- offset st) ?A) =
              (case ec of None \<Rightarrow> dbf_loop decoder (relocate ?B1 (- offset st) sc)
               | Some err \<Rightarrow> Some (relocate ?B1 (- offset st) sc, Some err))"
      using wA d0 by auto
    have "dbf_loop decoder (relocate ?B1 (- offset st) ?A)
        = Some (relocate ?B1 (- offset st) sc, ec)"
    proof (cases ec)
      case None
      have "int (length ?B1) - offset (relocate ?B1 (- offset st) sc)
                     < needed (relocate ?B1 (- offset st) sc)"
        using nc None len1 by simp
      then have "dbf_body decoder (relocate ?B1 (- offset st) sc)
                 = Return (relocate ?B1 (- offset st) sc)"
        by (intro dbf_body_Return[where buf = ?B1]) simp_all
      then have "dbf_loop decoder (relocate ?B1 (- offset st) sc)
                 = Some (relocate ?B1 (- offset st) sc, None)"
        by (rule dbf_loop_Return)
      then show ?thesis using m None by simp
    next
      case (Some err)
      then show ?thesis using m by simp
    qed
    then show ?thesis using ap by (simp add: dbf_transform_def)
  qed
  show ?case
  proof (cases ec)
    case (Some err)
    then show ?thesis using whole tr by simp
  next
    case None
    let ?st1 = "relocate ?B1 (- offset st) sc"
    let ?W = "relocate (buf @ c @ concat cs) 0 sc"
    have inv1: "dbf_inv ?st1"
      using isc osc len1 inv o by (intro dbf_inv_relocate) (auto simp: dbf_inv_def)
    have b1: "buffer ?st1 = Some ?B1" by simp
    have dr1: "drop (nat (offset ?st1)) ?B1 = drop (nat (offset sc)) (buf @ c)"
      using o osc by (simp add: rB nat_diff_distrib nat_le_iff)
    have st1: "int (length ?B1) - offset ?st1 < needed ?st1"
      using nc None len1 by simp
    have ok1: "dbf_ok ?st1 (drop (nat (offset ?st1)) ?B1 @ concat cs)"
      unfolding dr1 using nc None by simp
    from Cons.IH[OF inv1 b1 st1 ok1] obtain s e s' where
      ih: "dbf_loop decoder (relocate (?B1 @ concat cs) 0 ?st1) = Some (s, e)"
          "dbf_run decoder ?st1 cs
               = Some (s', case e of Some err \<Rightarrow> Some err | None \<Rightarrow> dbf_flush s)"
          "queue s' = queue s" "numrec s' = numrec s"
      by blast
    have invW: "dbf_inv ?W" using isc osc by (intro dbf_inv_relocate) (auto simp: dbf_inv_def)
    have bW: "buffer ?W = Some (buf @ c @ concat cs)" by simp
    have okW: "dbf_ok ?W (drop (nat (offset ?W)) (buf @ c @ concat cs) @ [] @ [])"
      using nc None osc o by simp
    from dbf_loop_master[OF invW bW okW] obtain sw ew where
      lw: "dbf_loop decoder ?W = Some (sw, ew)" by blast
    have okW': "dbf_ok ?W (drop (nat (offset ?W)) (buf @ c @ concat cs))"
      using okW by simp
    have wW: "window (buf @ c @ concat cs) (offset ?W) (?B1 @ concat cs)
                (offset ?W + (- offset st)) []"
      using o osc by (simp add: window_def rB nat_diff_distrib nat_le_iff)
    have dW: "status ?W = 0 \<longrightarrow> - offset st = 0"
      using isc osc o by (auto simp: dbf_inv_def)
    from dbf_loop_moved[OF invW bW okW' lw wW dW]
    have "dbf_loop decoder (relocate (?B1 @ concat cs) 0 ?st1)
          = Some (relocate (?B1 @ concat cs) (- offset st) sw, ew)"
      by simp
    then have sw: "s = relocate (?B1 @ concat cs) (- offset st) sw" "e = ew" using ih(1) by auto
    then have "dbf_flush s = dbf_flush sw" by simp
    then show ?thesis using whole None lw tr ih sw by (cases ew) simp_all
  qed
qed

lemma dbf_run_init:
  shows "dbf_result (dbf_run decoder dbf_init chunks)
   = dbf_result (dbf_run decoder (dbf_init\<lparr>buffer := Some []\<rparr>) chunks)"
proof (cases chunks)
  case Nil
  then show ?thesis by (simp add: dbf_result_def dbf_flush_def dbf_init_def)
next
  case (Cons c cs)
  have "append_chunk (dbf_init\<lparr>buffer := Some []\<rparr>) c = (append_chunk dbf_init c)"
    by (simp add: append_chunk_def dbf_init_def buffer_slice_def)
  then show ?thesis using Cons by (simp add: dbf_transform_def)
qed

lemma dbf_run_whole:
  assumes "dbf_valid (concat chunks)"
  shows "\<exists>s e. dbf_loop decoder (dbf_init\<lparr>buffer := Some (concat chunks)\<rparr>) = Some (s, e)
           \<and> dbf_result (dbf_run decoder dbf_init chunks)
               = Some (queue s, case e of Some err \<Rightarrow> Some err | None \<Rightarrow> dbf_flush s)"
proof -
  let ?st = "dbf_init\<lparr>buffer := Some []\<rparr>"
  have inv: "dbf_inv ?st" by (simp add: dbf_inv_def dbf_init_def)
  have buf: "buffer ?st = Some []" by simp
  have st: "int (length ([] :: byte list)) - offset ?st < needed ?st" by (simp add: dbf_init_def)
  have ok: "dbf_ok ?st (drop (nat (offset ?st)) [] @ concat chunks)"
    using assms by (simp add: dbf_ok_def dbf_init_def)
  from dbf_run_as_loop[OF inv buf st ok] obtain s e s' where
    r: "dbf_loop decoder (relocate ([] @ concat chunks) 0 ?st) = Some (s, e)"
       "dbf_run decoder ?st chunks
               = Some (s', case e of Some err \<Rightarrow> Some err | None \<Rightarrow> dbf_flush s)"
       "queue s' = queue s" "numrec s' = numrec s"
    by blast
  have i: "relocate ([] @ concat chunks) 0 ?st = dbf_init\<lparr>buffer := Some (concat chunks)\<rparr>"
    by (simp add: relocate_def dbf_init_def)
  have "dbf_result (dbf_run decoder dbf_init chunks) = dbf_result (dbf_run decoder ?st chunks)"
    by (rule dbf_run_init)
  also have "\<dots> = Some (queue s, case e of Some err \<Rightarrow> Some err | None \<Rightarrow> dbf_flush s)"
    using r(2,3,4) by (simp add: dbf_result_def)
  finally have res: "dbf_result (dbf_run decoder dbf_init chunks)
      = Some (queue s, case e of Some err \<Rightarrow> Some err | None \<Rightarrow> dbf_flush s)" .
  have "dbf_loop decoder (dbf_init\<lparr>buffer := Some (concat chunks)\<rparr>) = Some (s, e)"
    using r(1) unfolding i .
  then show ?thesis using res by blast
qed

lemma dbf_chunking:
  assumes "dbf_valid (concat chunks)" "concat chunks' = concat chunks"
  shows "dbf_run decoder dbf_init chunks \<noteq> None
         \<and> dbf_result (dbf_run decoder dbf_init chunks') = dbf_result (dbf_run decoder dbf_init chunks)"
proof -
  from dbf_run_whole[OF assms(1)] obtain s e where
    a: "dbf_loop decoder (dbf_init\<lparr>buffer := Some (concat chunks)\<rparr>) = Some (s, e)"
       "dbf_result (dbf_run decoder dbf_init chunks)
               = Some (queue s, case e of Some err \<Rightarrow> Some err | None \<Rightarrow> dbf_flush s)"
    by blast
  from dbf_run_whole[of chunks' decoder] assms obtain s2 e2 where
    b: "dbf_loop decoder (dbf_init\<lparr>buffer := Some (concat chunks)\<rparr>) = Some (s2, e2)"
       "dbf_result (dbf_run decoder dbf_init chunks')
               = Some (queue s2, case e2 of Some err \<Rightarrow> Some err | None \<Rightarrow> dbf_flush s2)"
    by auto
  have "s2 = s" "e2 = e" using a(1) b(1) by auto
  then show ?thesis using a(2) b(2) by (auto simp: dbf_result_def)
qed

section \<open>Properties of the streams\<close>

subsection \<open>Pairing features with rows\<close>

lemma stitch_closed:
  "stitch (fs, None) (ps, None) =
     (map2 (\<lambda>f p. f\<lparr>properties := Some p\<rparr>) fs ps,
      if length fs = length ps then None
      else if length fs < length ps then Some NotEnoughFeatureRecords
      else Some NotEnoughDbfRecords)"
proof (induction fs arbitrary: ps)
  case Nil
  then show ?case by (cases ps) simp_all
next
  case (Cons f fs)
  then show ?case by (cases ps) simp_all
qed

text \<open>
  C4. When both streams close, \<open>stitch\<close> yields the features of the first stream, each
  with the row at the same place of the second as its properties, as far as both streams
  reach: as many as the shorter stream has. It ends cleanly exactly when the two streams
  have the same length; when the features run out first it throws the error of too few
  feature records, when the rows run out first the error of too few rows.
\<close>

theorem stitch_pairing:
  "stitch (fs, None) (ps, None) =
     (map2 (\<lambda>f p. f\<lparr>properties := Some p\<rparr>) fs ps,
      if length fs = length ps then None
      else if length fs < length ps then Some NotEnoughFeatureRecords
      else Some NotEnoughDbfRecords)
   \<and> length (fst (stitch (fs, None) (ps, None))) = min (length fs) (length ps)
   \<and> (snd (stitch (fs, None) (ps, None)) = None) = (length fs = length ps)"
  by (simp add: stitch_closed)

theorem stitch_pairing_witness:
  "stitch ([\<lparr>fbbox = None, geometry = None, properties = None\<rparr>,
            \<lparr>fbbox = None, geometry = Some (Point (1, 2)), properties = None\<rparr>,
            \<lparr>fbbox = None, geometry = Some (Point (3, 4)), properties = None\<rparr>], None)
          ([[(str ''n'', Null)], [(str ''n'', Boolean True)]], None)
   = ([\<lparr>fbbox = None, geometry = None, properties = Some [(str ''n'', Null)]\<rparr>,
       \<lparr>fbbox = None, geometry = Some (Point (1, 2)), properties = Some [(str ''n'', Boolean True)]\<rparr>],
      Some NotEnoughDbfRecords)"
  using stitch_pairing[of "[\<lparr>fbbox = None, geometry = None, properties = None\<rparr>,
            \<lparr>fbbox = None, geometry = Some (Point (1, 2)), properties = None\<rparr>,
            \<lparr>fbbox = None, geometry = Some (Point (3, 4)), properties = None\<rparr>]"
          "[[(str ''n'', Null)], [(str ''n'', Boolean True)]]"]
  by simp

subsection \<open>Numeric fields\<close>

text \<open>
  C6. The claim is that a numeric field whose trimmed text is empty or not a number
  decodes to \<open>null\<close>. \<open>dbfRecord\<close> gives \<open>null\<close> for the empty text only; any other text goes
  to \<open>Number\<close>, which returns \<open>NaN\<close> for text that is not a number. A field of width 3
  that holds \<open>abc\<close> decodes to \<open>NaN\<close>, a field that holds three spaces to \<open>null\<close>.
\<close>

theorem non_numeric_field_is_NaN:
  "dbfRecord ([32, 97, 98, 99], 0, 4) [numeric_field] ascii_decoder = Inr [(str ''n'', Number NaN)]
   \<and> dbfRecord ([32, 32, 32, 32], 0, 4) [numeric_field] ascii_decoder = Inr [(str ''n'', Null)]"
  by code_simp

subsection \<open>The header of an attribute stream\<close>

lemma dbfHeader_cases:
  assumes "32 \<le> length bs"
  shows "dbfHeader bs =
     (if byte_at bs 0 AND 7 \<noteq> 3 then Inl (DBFFormatNotImplemented (byte_at bs 0 AND 7))
      else if byte_at bs 15 \<noteq> 0 then Inl EncryptedDBF
      else Inr (byte_at bs 4 + 256 * byte_at bs 5 + 65536 * byte_at bs 6 + 16777216 * byte_at bs 7,
                byte_at bs 10 + 256 * byte_at bs 11))"
  using assms
  by (simp add: dbfHeader_def ebind_def getUint8_def getUint16LE_def getUint32LE_def
      in_range_def Let_def)

lemma dbf_rejected_run:
  assumes l: "32 \<le> length (concat chunks)" and h: "dbfHeader (concat chunks) = Inl e"
  shows "dbf_result (dbf_run decoder dbf_init chunks) = Some ([], Some (Thrown e))"
proof -
  have v: "dbf_valid (concat chunks)" using h by (simp add: dbf_valid_def)
  let ?st = "dbf_init\<lparr>buffer := Some (concat chunks)\<rparr>"
  have "dbf_body decoder ?st = Throw ?st (Thrown e)"
    using l h by (simp add: dbf_body_def dbf_init_def)
  then have "dbf_loop decoder ?st = Some (?st, Some (Thrown e))" by (rule dbf_loop_Throw)
  then show ?thesis using dbf_run_whole[OF v, of decoder] by (auto simp: dbf_init_def)
qed

text \<open>
  C9. \<open>dbfHeader\<close> returns for a header of 32 bytes exactly when the format (the low
  three bits of the first byte) is 3 and the byte of the encryption flag is zero. For any
  other format, and for format 3 with the flag set, the stream of the transformer ends
  with the error that \<open>dbfHeader\<close> throws and has enqueued no row, however the bytes
  are cut into chunks.
\<close>

theorem dbf_header_accepted:
  assumes "32 \<le> length (concat chunks)"
  shows "((\<exists>nr rl. dbfHeader (concat chunks) = Inr (nr, rl))
            = (byte_at (concat chunks) 0 AND 7 = 3 \<and> byte_at (concat chunks) 15 = 0))
     \<and> (byte_at (concat chunks) 0 AND 7 \<noteq> 3 \<longrightarrow>
          dbf_result (dbf_run decoder dbf_init chunks)
            = Some ([], Some (Thrown (DBFFormatNotImplemented (byte_at (concat chunks) 0 AND 7)))))
     \<and> (byte_at (concat chunks) 0 AND 7 = 3 \<and> byte_at (concat chunks) 15 \<noteq> 0 \<longrightarrow>
          dbf_result (dbf_run decoder dbf_init chunks) = Some ([], Some (Thrown EncryptedDBF)))"
proof -
  note c = dbfHeader_cases[OF assms]
  have "(\<exists>nr rl. dbfHeader (concat chunks) = Inr (nr, rl))
            = (byte_at (concat chunks) 0 AND 7 = 3 \<and> byte_at (concat chunks) 15 = 0)"
    unfolding c by simp
  moreover have "dbf_result (dbf_run decoder dbf_init chunks)
            = Some ([], Some (Thrown (DBFFormatNotImplemented (byte_at (concat chunks) 0 AND 7))))"
    if "byte_at (concat chunks) 0 AND 7 \<noteq> 3"
    using dbf_rejected_run[OF assms, of _ decoder] c that by simp
  moreover have "dbf_result (dbf_run decoder dbf_init chunks) = Some ([], Some (Thrown EncryptedDBF))"
    if "byte_at (concat chunks) 0 AND 7 = 3 \<and> byte_at (concat chunks) 15 \<noteq> 0"
    using dbf_rejected_run[OF assms, of _ decoder] c that by simp
  ultimately show ?thesis by blast
qed

lemma header_examples:
  "length v4_header = 32" "byte_at v4_header 0 = 4"
  "length encrypted_header = 32" "byte_at encrypted_header 0 = 3" "byte_at encrypted_header 15 = 1"
  by (simp_all add: v4_header_def encrypted_header_def byte_at_def)

theorem dbf_header_accepted_witness:
  "dbf_result (dbf_run ascii_decoder dbf_init [v4_header])
     = Some ([], Some (Thrown (DBFFormatNotImplemented 4)))
   \<and> dbf_result (dbf_run ascii_decoder dbf_init [take 7 encrypted_header, drop 7 encrypted_header])
     = Some ([], Some (Thrown EncryptedDBF))"
  using dbf_header_accepted[of "[v4_header]" ascii_decoder]
    dbf_header_accepted[of "[take 7 encrypted_header, drop 7 encrypted_header]" ascii_decoder]
    header_examples
  by simp

subsection \<open>Deleted rows\<close>





end
